theory Spec2Isabelle
  imports Complex_Main "HOL-Library.Word" "HOL-Library.Multiset" "HOL-Library.Signed_Division"
begin

section \<open>Data model\<close>

text \<open>
  The updater (\<^verbatim>\<open>package main\<close>, type \<^verbatim>\<open>Updater\<close>, in
  \<^verbatim>\<open>src/pkg/ytdl/temp_file.go\<close>) works on episodes kept in a key-value store, on blobs
  kept in a file storage, and on the per-feed configuration of
  \<^verbatim>\<open>src/pkg/config/config.go\<close>. The packages \<^verbatim>\<open>model\<close>, \<^verbatim>\<open>db\<close>, \<^verbatim>\<open>fs\<close>,
  \<^verbatim>\<open>feed\<close> and \<^verbatim>\<open>builder\<close> are used by the updater through their interfaces only.
  Go's \<^verbatim>\<open>int\<close> is taken to be 64 bits wide.
\<close>

text \<open>Modelled from the spec: the closed status enum of \<^verbatim>\<open>model.Episode\<close>
  (\<open>New\<close>, \<open>Downloaded\<close>, \<open>Error\<close>, \<open>Cleaned\<close>).\<close>

datatype EpisodeStatus = EpisodeNew | EpisodeDownloaded | EpisodeError | EpisodeCleaned

text \<open>Modelled from the spec: the attributes of \<^verbatim>\<open>model.Episode\<close> (identity, title,
  description, publish timestamp, source video locator, on-disk byte size, status). The publish
  timestamp is an instant in nanoseconds; the size is Go's \<^verbatim>\<open>int64\<close>.\<close>

record episode =
  ID :: string
  Title :: string
  Description :: string
  PubDate :: int
  VideoURL :: string
  Size :: "64 word"
  Status :: EpisodeStatus

text \<open>\<^verbatim>\<open>model.Feed\<close> as returned by the remote listing provider: a title and the ordered
  episode list.\<close>

record listing =
  ListingTitle :: string
  Episodes :: "episode list"

text \<open>\<^verbatim>\<open>config.Filters\<close>, \<^verbatim>\<open>config.SponsorBlockCategories\<close>, \<^verbatim>\<open>config.Cleanup\<close>
  and the fields of \<^verbatim>\<open>config.Feed\<close> that the updater reads. \<open>PageSize\<close> is a Go
  \<^verbatim>\<open>int\<close> that the scheduler decrements, hence a 64-bit word read as two's complement;
  \<open>KeepLast\<close> is only compared. \<open>SponsorblockDelay\<close> is a duration in nanoseconds.\<close>

record filters =
  FTitle :: string
  FNotTitle :: string
  FDescription :: string
  FNotDescription :: string

record categories =
  Sponsors :: string
  Intermissions :: string
  Endcards :: string
  InteractionReminders :: string
  SelfPromotions :: string
  NonmusicSections :: string

record cleanup_cfg =
  KeepLast :: int

record feed =
  FeedID :: string
  PageSize :: "64 word"
  Format :: string
  Filters :: filters
  Clean :: cleanup_cfg
  SponsorblockMode :: string
  SponsorblockDelay :: int
  SponsorBlockCategories :: categories

definition FormatAudio :: string where
  "FormatAudio = ''audio''"

text \<open>The local \<^verbatim>\<open>Segment\<close> struct of \<^verbatim>\<open>downloadEpisodes\<close>. The bounds are JSON
  numbers decoded into \<^verbatim>\<open>float64\<close>; the updater copies and compares them and never
  computes with them, so they are modelled as reals.\<close>

record segment =
  Segment :: "real list"
  UUID :: string
  Category :: string

text \<open>\<^verbatim>\<open>ytdl.TempFile\<close>: the path of the downloaded media and its length in bytes.\<close>

record TempFile =
  Fullpath :: string
  Bytes :: "64 word"

datatype dbOp = OpWalkEpisodes | OpAddFeed | OpUpdateEpisode string | OpDeleteEpisode string

datatype fsOp = OpSize string | OpCreate string | OpDelete string

datatype error =
    RegexpSyntaxError string
  | ProviderError
  | DbError dbOp
  | FsError fsOp
  | NotExist
  | ErrTooManyRequests
  | DownloadError
  | TempDirError
  | ExecError
  | OpenError string
  | IndexOutOfRange
  | Wrap string error
  | MultiError "error list"

text \<open>What the sponsor-segment server answers to one GET: the request fails, or a status code
  comes back together with the value the variable \<^verbatim>\<open>segments\<close> has after the body was read
  and unmarshalled (used for status 200 only).\<close>

datatype http_reply = GetFailed | Response nat "segment list"

datatype download_result = TooManyRequests | DownloadFailed | DownloadOk TempFile

text \<open>The external transcoder: \<^verbatim>\<open>cmd.Start\<close> fails, \<^verbatim>\<open>cmd.Wait\<close> fails, or the
  process ends and the output file is there with a size (\<open>Some\<close>) or cannot be opened.\<close>

datatype ffmpeg_result = StartFailed | WaitFailed | Exited "64 word option"

datatype call = CallDownload string | CallFfmpeg "string list"

text \<open>
  The outside world of one run.
  \<^item> \<open>regexpCompile\<close> is Go's \<^verbatim>\<open>regexp\<close> package: a pattern either fails to compile
    (\<open>None\<close>) or denotes a predicate on strings.
  \<^item> \<open>now\<close> is the wall clock in nanoseconds.
  \<^item> \<open>dbFault\<close> and \<open>fsFault\<close> say which store and file-storage operations fail for
    reasons of their own (I/O).
  \<^item> \<open>rangeKeys\<close> is the order in which Go's \<^verbatim>\<open>range\<close> visits the keys of a map.
  \<^item> \<open>fetchListing\<close> is the remote listing provider (\<^verbatim>\<open>builder.ParseURL\<close>, the key
    provider, \<^verbatim>\<open>builder.New\<close> and \<^verbatim>\<open>provider.Build\<close>).
  \<^item> \<open>EpisodeName\<close> is \<^verbatim>\<open>feed.EpisodeName\<close>, the derived blob name.
  \<^item> \<open>ApiUrl\<close> is \<^verbatim>\<open>config.SponsorBlock.ApiUrl\<close>, \<open>httpGet\<close> the segment lookup.
  \<^item> \<open>Download\<close> is the downloader, \<open>TempDir\<close> is \<^verbatim>\<open>ioutil.TempDir\<close>, \<open>ffmpeg\<close> the
    transcoder run on its argument list.
  \<^item> \<open>sortSlice\<close> is \<^verbatim>\<open>sort.Slice\<close>, \<open>fmtFloat\<close> is \<^verbatim>\<open>fmt.Sprintf("%f", x)\<close>,
    \<open>filepathJoin\<close> is \<^verbatim>\<open>filepath.Join\<close> of two elements, which joins them with a
    separator and cleans the result.
\<close>

record env =
  regexpCompile :: "string \<Rightarrow> (string \<Rightarrow> bool) option"
  now :: int
  dbFault :: "dbOp \<Rightarrow> bool"
  fsFault :: "fsOp \<Rightarrow> bool"
  rangeKeys :: "string list \<Rightarrow> string list"
  fetchListing :: "feed \<Rightarrow> error + listing"
  EpisodeName :: "feed \<Rightarrow> episode \<Rightarrow> string"
  ApiUrl :: string
  httpGet :: "string \<Rightarrow> http_reply"
  Download :: "feed \<Rightarrow> episode \<Rightarrow> download_result"
  TempDir :: "string option"
  ffmpeg :: "string list \<Rightarrow> ffmpeg_result"
  sortSlice :: "(episode \<Rightarrow> episode \<Rightarrow> bool) \<Rightarrow> episode list \<Rightarrow> episode list"
  fmtFloat :: "real \<Rightarrow> string"
  filepathJoin :: "string \<Rightarrow> string \<Rightarrow> string"

text \<open>The state a run works on: the episodes of the feed in the store, in the order
  \<^verbatim>\<open>WalkEpisodes\<close> visits them; the blobs of the feed in file storage with their sizes; and
  the downloader and transcoder invocations made so far.\<close>

record world =
  db :: "episode list"
  fs :: "string \<rightharpoonup> 64 word"
  calls :: "call list"

section \<open>Collaborators\<close>

text \<open>Modelled from the spec: the local store (\<^verbatim>\<open>db.Storage\<close>). \<^verbatim>\<open>walkEpisodes\<close> visits
  the episodes in order; \<^verbatim>\<open>addFeed\<close> is an upsert: an episode not previously known is inserted
  as \<open>New\<close>, a known one is refreshed without altering its current status;
  \<^verbatim>\<open>updateEpisode\<close> is a read-modify-write that fails if the episode is unknown;
  \<^verbatim>\<open>deleteEpisode\<close> removes the episode with that ID.\<close>

definition wf_store :: "episode list \<Rightarrow> bool" where
  "wf_store d = distinct (map ID d)"

definition dbWalkEpisodes :: "env \<Rightarrow> episode list \<Rightarrow> error + episode list" where
  "dbWalkEpisodes env d =
     (if dbFault env OpWalkEpisodes then Inl (DbError OpWalkEpisodes) else Inr d)"

definition refresh :: "episode \<Rightarrow> episode \<Rightarrow> episode" where
  "refresh old new =
     old\<lparr> Title := Title new, Description := Description new, PubDate := PubDate new,
          VideoURL := VideoURL new \<rparr>"

definition upsert :: "episode list \<Rightarrow> episode \<Rightarrow> episode list" where
  "upsert d new =
     (if ID new \<in> ID ` set d
      then map (\<lambda>old. if ID old = ID new then refresh old new else old) d
      else d @ [new\<lparr> Status := EpisodeNew \<rparr>])"

definition dbAddFeed :: "env \<Rightarrow> episode list \<Rightarrow> listing \<Rightarrow> error + episode list" where
  "dbAddFeed env d result =
     (if dbFault env OpAddFeed then Inl (DbError OpAddFeed)
      else Inr (foldl upsert d (Episodes result)))"

definition dbUpdateEpisode ::
  "env \<Rightarrow> episode list \<Rightarrow> string \<Rightarrow> (episode \<Rightarrow> episode) \<Rightarrow> error + episode list" where
  "dbUpdateEpisode env d i f =
     (if dbFault env (OpUpdateEpisode i) \<or> i \<notin> ID ` set d then Inl (DbError (OpUpdateEpisode i))
      else Inr (map (\<lambda>e. if ID e = i then f e else e) d))"

definition dbDeleteEpisode :: "env \<Rightarrow> episode list \<Rightarrow> string \<Rightarrow> error + episode list" where
  "dbDeleteEpisode env d i =
     (if dbFault env (OpDeleteEpisode i) then Inl (DbError (OpDeleteEpisode i))
      else Inr (filter (\<lambda>e. ID e \<noteq> i) d))"

text \<open>Modelled from the spec: the file storage (\<^verbatim>\<open>fs.Storage\<close>). \<^verbatim>\<open>size\<close> gives the bytes
  of a blob or \<open>NotFound\<close>, \<^verbatim>\<open>create\<close> stores the content and returns the bytes written,
  \<^verbatim>\<open>delete\<close> removes the blob.\<close>

definition fsSize :: "env \<Rightarrow> (string \<rightharpoonup> 64 word) \<Rightarrow> string \<Rightarrow> error + 64 word" where
  "fsSize env f name =
     (if fsFault env (OpSize name) then Inl (FsError (OpSize name))
      else case f name of None \<Rightarrow> Inl NotExist | Some n \<Rightarrow> Inr n)"

definition fsCreate ::
  "env \<Rightarrow> (string \<rightharpoonup> 64 word) \<Rightarrow> string \<Rightarrow> 64 word \<Rightarrow> error + (64 word \<times> (string \<rightharpoonup> 64 word))" where
  "fsCreate env f name n =
     (if fsFault env (OpCreate name) then Inl (FsError (OpCreate name))
      else Inr (n, f(name \<mapsto> n)))"

definition fsDelete :: "env \<Rightarrow> (string \<rightharpoonup> 64 word) \<Rightarrow> string \<Rightarrow> error + (string \<rightharpoonup> 64 word)" where
  "fsDelete env f name =
     (if fsFault env (OpDelete name) then Inl (FsError (OpDelete name))
      else Inr (f(name := None)))"

section \<open>Episode reconciler\<close>

text \<open>The walk of \<^verbatim>\<open>updateFeed\<close> collects into the map \<^verbatim>\<open>episodeSet\<close> the IDs of the
  episodes that are neither downloaded nor cleaned. The keys of the map are kept as a list
  without repetitions.\<close>

definition collect :: "string list \<Rightarrow> episode \<Rightarrow> string list" where
  "collect episodeSet ep =
     (if Status ep \<noteq> EpisodeDownloaded \<and> Status ep \<noteq> EpisodeCleaned
      then List.insert (ID ep) episodeSet else episodeSet)"

fun deleteLoop :: "env \<Rightarrow> string list \<Rightarrow> episode list \<Rightarrow> error option \<times> episode list" where
  "deleteLoop env [] d = (None, d)"
| "deleteLoop env (i # ids) d =
     (case dbDeleteEpisode env d i of
        Inl err \<Rightarrow> (Some err, d)
      | Inr d' \<Rightarrow> deleteLoop env ids d')"

definition reconcile :: "env \<Rightarrow> listing \<Rightarrow> episode list \<Rightarrow> error option \<times> episode list" where
  "reconcile env result d =
     (case dbWalkEpisodes env d of
        Inl err \<Rightarrow> (Some err, d)
      | Inr eps \<Rightarrow>
          (let episodeSet = foldl collect [] eps in
           case dbAddFeed env d result of
             Inl err \<Rightarrow> (Some err, d)
           | Inr d1 \<Rightarrow>
               (let episodeSet' = foldl (\<lambda>s ep. removeAll (ID ep) s) episodeSet (Episodes result)
                in deleteLoop env (rangeKeys env episodeSet') d1)))"

definition updateFeed :: "env \<Rightarrow> feed \<Rightarrow> episode list \<Rightarrow> error option \<times> episode list" where
  "updateFeed env feedConfig d =
     (case fetchListing env feedConfig of
        Inl err \<Rightarrow> (Some err, d)
      | Inr result \<Rightarrow> reconcile env result d)"

text \<open>Go's \<^verbatim>\<open>range\<close> over a map visits exactly the keys of the map.\<close>

definition rangeVisitsKeys :: "env \<Rightarrow> bool" where
  "rangeVisitsKeys env = (\<forall>ks. set (rangeKeys env ks) = set ks)"

text \<open>What the upsert of a whole listing does to one episode that is already known.\<close>

definition refreshAll :: "episode \<Rightarrow> episode list \<Rightarrow> episode" where
  "refreshAll old eps = foldl (\<lambda>e r. if ID e = ID r then refresh e r else e) old eps"

section \<open>Filter engine\<close>

text \<open>\<^verbatim>\<open>regexp.MatchString(pattern, str)\<close>: compile, then match.\<close>

definition MatchString :: "env \<Rightarrow> string \<Rightarrow> string \<Rightarrow> error + bool" where
  "MatchString env pattern str =
     (case regexpCompile env pattern of
        None \<Rightarrow> Inl (RegexpSyntaxError pattern)
      | Some m \<Rightarrow> Inr (m str))"

definition matchRegexpFilter :: "env \<Rightarrow> string \<Rightarrow> string \<Rightarrow> bool \<Rightarrow> bool" where
  "matchRegexpFilter env pattern str negative =
     (if pattern \<noteq> [] then
        (case MatchString env pattern str of
           Inl err \<Rightarrow> True
         | Inr matched \<Rightarrow> (if matched = negative then False else True))
      else True)"

definition matchFilters :: "env \<Rightarrow> episode \<Rightarrow> filters \<Rightarrow> bool" where
  "matchFilters env ep filters =
     (if \<not> matchRegexpFilter env (FTitle filters) (Title ep) False then False
      else if \<not> matchRegexpFilter env (FNotTitle filters) (Title ep) True then False
      else if \<not> matchRegexpFilter env (FDescription filters) (Description ep) False then False
      else if \<not> matchRegexpFilter env (FNotDescription filters) (Description ep) True then False
      else True)"

text \<open>
  The four gates in the words of the specification: an empty pattern passes, a pattern that
  does not compile passes, a positive pattern passes iff it matches, a negative pattern passes
  iff it does not match.
\<close>

definition gate_spec :: "env \<Rightarrow> bool \<Rightarrow> string \<Rightarrow> string \<Rightarrow> bool" where
  "gate_spec env negative pattern str =
     (pattern = [] \<or>
      (case regexpCompile env pattern of
         None \<Rightarrow> True
       | Some m \<Rightarrow> (if negative then \<not> m str else m str)))"

section \<open>Segment planner\<close>

text \<open>The six tests of the planner's loop that skip a segment: its category is one of the
  fixed six and the feed's policy for that category is \<open>keep\<close>. Every other segment is cut.\<close>

definition kept :: "categories \<Rightarrow> segment \<Rightarrow> bool" where
  "kept c s =
     (Category s = ''sponsor'' \<and> Sponsors c = ''keep'' \<or>
      Category s = ''intro'' \<and> Intermissions c = ''keep'' \<or>
      Category s = ''outro'' \<and> Endcards c = ''keep'' \<or>
      Category s = ''interaction'' \<and> InteractionReminders c = ''keep'' \<or>
      Category s = ''selfpromo'' \<and> SelfPromotions c = ''keep'' \<or>
      Category s = ''music_offtopic'' \<and> NonmusicSections c = ''keep'')"

text \<open>The loop over \<^verbatim>\<open>segments\<close> with its variables \<^verbatim>\<open>nextStart\<close> and \<^verbatim>\<open>keeps\<close>, and
  the final append after the loop. Indexing \<^verbatim>\<open>segment.Segment\<close> beyond its length panics.\<close>

fun keepsLoop ::
  "categories \<Rightarrow> segment list \<Rightarrow> real \<Rightarrow> (real \<times> real) list \<Rightarrow> error + (real \<times> real) list" where
  "keepsLoop c [] nextStart keeps = Inr (keeps @ [(nextStart, - 1)])"
| "keepsLoop c (s # segments) nextStart keeps =
     (if kept c s then keepsLoop c segments nextStart keeps
      else case Segment s of
             a # b # _ \<Rightarrow> keepsLoop c segments b (keeps @ [(nextStart, a)])
           | _ \<Rightarrow> Inl IndexOutOfRange)"

definition planKeeps :: "categories \<Rightarrow> segment list \<Rightarrow> error + (real \<times> real) list" where
  "planKeeps c segments = keepsLoop c segments 0 []"

text \<open>The planner in the words of the specification: a keep interval from the cursor to the
  start of every cut segment, the cursor advancing to the segment's end, and a final interval
  from the cursor to \<open>-1\<close>.\<close>

definition segStart :: "segment \<Rightarrow> real" where
  "segStart s = Segment s ! 0"

definition segEnd :: "segment \<Rightarrow> real" where
  "segEnd s = Segment s ! 1"






section \<open>Filter-graph builder\<close>

text \<open>\<^verbatim>\<open>fmt.Sprintf("%d", n)\<close> for an index or a length.\<close>

fun showNat :: "nat \<Rightarrow> string" where
  "showNat n =
     (if n < 10 then [''0123456789'' ! n]
      else showNat (n div 10) @ [''0123456789'' ! (n mod 10)])"

declare showNat.simps [simp del]

definition ext :: "string \<Rightarrow> string" where
  "ext format = (if format = FormatAudio then ''mp3'' else ''mp4'')"

definition videoStreams :: "string \<Rightarrow> nat" where
  "videoStreams format = (if format = FormatAudio then 0 else 1)"

text \<open>The loop over \<^verbatim>\<open>keeps\<close> with its index and its variables \<^verbatim>\<open>filter\<close> (here \<open>filterS\<close>)
  and \<^verbatim>\<open>finalFilter\<close>.\<close>

fun filterLoop ::
  "env \<Rightarrow> string \<Rightarrow> nat \<Rightarrow> (real \<times> real) list \<Rightarrow> string \<times> string \<Rightarrow> string \<times> string" where
  "filterLoop env format idx [] acc = acc"
| "filterLoop env format idx ((start, stop) # keeps) (filterS, finalFilter) =
     (let f1 = filterS @ ''[0:a]atrim=start='' @ fmtFloat env start;
          f2 = (if stop \<ge> 0 then f1 @ '':end='' @ fmtFloat env stop else f1);
          f3 = f2 @ '',asetpts=PTS-STARTPTS[s'' @ showNat idx @ ''a];'';
          f4 = (if format \<noteq> FormatAudio then f3 @ ''[0:v]trim=start='' @ fmtFloat env start else f3);
          f5 = (if format \<noteq> FormatAudio \<and> stop \<ge> 0 then f4 @ '':end='' @ fmtFloat env stop else f4);
          f6 = (if format \<noteq> FormatAudio
                then f5 @ '',setpts=PTS-STARTPTS[s'' @ showNat idx @ ''v];'' else f5);
          g1 = (if format \<noteq> FormatAudio
                then finalFilter @ ''[s'' @ showNat idx @ ''v]'' else finalFilter);
          g2 = g1 @ ''[s'' @ showNat idx @ ''a]''
      in filterLoop env format (Suc idx) keeps (f6, g2))"

definition buildFilter :: "env \<Rightarrow> string \<Rightarrow> (real \<times> real) list \<Rightarrow> string" where
  "buildFilter env format keeps =
     (case filterLoop env format 0 keeps ([], []) of
        (filterS, finalFilter) \<Rightarrow>
          filterS @ finalFilter @ ''concat=n='' @ showNat (length keeps) @ '':v='' @
          showNat (videoStreams format) @ '':a=1'' @
          (if format \<noteq> FormatAudio then ''[outv]'' else []) @ ''[outa]'')"

text \<open>\<^verbatim>\<open>filepath.Join(tmpDir, fmt.Sprintf("processed-%s.%s", episode.ID, ext))\<close>\<close>

definition processedPath :: "env \<Rightarrow> string \<Rightarrow> episode \<Rightarrow> string \<Rightarrow> string" where
  "processedPath env tmpDir ep format =
     filepathJoin env tmpDir (''processed-'' @ ID ep @ ''.'' @ ext format)"

definition ffmpegArgs :: "string \<Rightarrow> string \<Rightarrow> string \<Rightarrow> string \<Rightarrow> string list" where
  "ffmpegArgs format input filterS output =
     [''-f'', ext format, ''-i'', input, ''-filter_complex'', filterS, ''-map'', ''[outa]''] @
     (if format \<noteq> FormatAudio then [''-map'', ''[outv]''] else []) @
     [output]"

text \<open>The stages in the words of the specification: the audio-trim stage and the video-trim
  stage of the keep interval at position \<open>i\<close>, and the labels the concatenation stage
  refers to.\<close>

definition trimBounds :: "env \<Rightarrow> real \<times> real \<Rightarrow> string" where
  "trimBounds env k =
     ''start='' @ fmtFloat env (fst k) @ (if snd k \<ge> 0 then '':end='' @ fmtFloat env (snd k) else [])"

definition audioStage :: "env \<Rightarrow> nat \<Rightarrow> real \<times> real \<Rightarrow> string" where
  "audioStage env i k =
     ''[0:a]atrim='' @ trimBounds env k @ '',asetpts=PTS-STARTPTS[s'' @ showNat i @ ''a];''"

definition videoStage :: "env \<Rightarrow> nat \<Rightarrow> real \<times> real \<Rightarrow> string" where
  "videoStage env i k =
     ''[0:v]trim='' @ trimBounds env k @ '',setpts=PTS-STARTPTS[s'' @ showNat i @ ''v];''"

definition stages_spec :: "env \<Rightarrow> string \<Rightarrow> nat \<Rightarrow> (real \<times> real) list \<Rightarrow> string list" where
  "stages_spec env format i keeps =
     concat (map (\<lambda>(j, k). audioStage env j k #
                    (if format \<noteq> FormatAudio then [videoStage env j k] else []))
               (enumerate i keeps))"

definition labels_spec :: "string \<Rightarrow> nat \<Rightarrow> nat \<Rightarrow> string list" where
  "labels_spec format i n =
     concat (map (\<lambda>j. (if format \<noteq> FormatAudio then [''[s'' @ showNat j @ ''v]''] else []) @
                       [''[s'' @ showNat j @ ''a]''])
               [i ..< i + n])"

section \<open>Download scheduler\<close>

text \<open>The callback of the walk that builds \<^verbatim>\<open>downloadList\<close>, with the captured variables
  \<^verbatim>\<open>pageSize\<close> and \<^verbatim>\<open>downloadList\<close> as its state.\<close>

definition enqueue :: "env \<Rightarrow> feed \<Rightarrow> 64 word \<times> episode list \<Rightarrow> episode \<Rightarrow> 64 word \<times> episode list" where
  "enqueue env feedConfig st ep =
     (case st of (pageSize, downloadList) \<Rightarrow>
        if Status ep \<noteq> EpisodeNew \<and> Status ep \<noteq> EpisodeError then (pageSize, downloadList)
        else if \<not> matchFilters env ep (Filters feedConfig) then (pageSize, downloadList)
        else if sint (pageSize - 1) \<le> 0 then (pageSize - 1, downloadList)
        else (pageSize - 1, downloadList @ [ep]))"

definition buildDownloadList :: "env \<Rightarrow> feed \<Rightarrow> episode list \<Rightarrow> episode list" where
  "buildDownloadList env feedConfig eps =
     snd (foldl (enqueue env feedConfig) (PageSize feedConfig, []) eps)"

text \<open>The candidates in the words of the specification: the stored episodes, in store
  order, whose status is \<open>New\<close> or \<open>Error\<close> and which pass the filter engine.\<close>

definition eligible :: "env \<Rightarrow> feed \<Rightarrow> episode list \<Rightarrow> episode list" where
  "eligible env feedConfig eps =
     filter (\<lambda>e. (Status e = EpisodeNew \<or> Status e = EpisodeError) \<and>
                  matchFilters env e (Filters feedConfig)) eps"

text \<open>\<^verbatim>\<open>time.Since(episode.PubDate)\<close> saturates at the bounds of a duration;
  \<^verbatim>\<open>Microseconds\<close> divides the nanoseconds by 1000, truncating towards zero.\<close>

definition Since :: "env \<Rightarrow> int \<Rightarrow> int" where
  "Since env t = max (- (2 ^ 63)) (min (2 ^ 63 - 1) (now env - t))"

definition Microseconds :: "int \<Rightarrow> int" where
  "Microseconds d = d sdiv 1000"

definition delayPassed :: "env \<Rightarrow> feed \<Rightarrow> episode \<Rightarrow> bool" where
  "delayPassed env feedConfig ep =
     (Microseconds (Since env (PubDate ep)) > Microseconds (SponsorblockDelay feedConfig))"

definition quoted :: "string \<Rightarrow> string" where
  "quoted s = CHR 0x22 # s @ [CHR 0x22]"

definition segmentsUrl :: "env \<Rightarrow> episode \<Rightarrow> string" where
  "segmentsUrl env ep =
     ApiUrl env @ ''/api/skipSegments?categories=['' @ quoted ''sponsor'' @ '','' @
     quoted ''intro'' @ '','' @ quoted ''outro'' @ '','' @ quoted ''interaction'' @ '','' @
     quoted ''selfpromo'' @ '','' @ quoted ''music_offtopic'' @ '']&videoID='' @ ID ep"

text \<open>The value of \<^verbatim>\<open>segments\<close> after the sponsor-segment lookup: nothing is fetched in
  mode \<open>off\<close>; a failed request, status 404 and every status other than 200 leave it empty.\<close>

definition fetchSegments :: "env \<Rightarrow> feed \<Rightarrow> episode \<Rightarrow> segment list" where
  "fetchSegments env feedConfig ep =
     (if SponsorblockMode feedConfig \<noteq> ''off'' then
        (case httpGet env (segmentsUrl env ep) of
           GetFailed \<Rightarrow> []
         | Response status segments \<Rightarrow>
             if status = 404 then [] else if status = 200 then segments else [])
      else [])"

text \<open>The branch without segments: the downloaded file is copied to file storage.\<close>

definition copyFile ::
  "env \<Rightarrow> world \<Rightarrow> string \<Rightarrow> TempFile \<Rightarrow> (error \<times> world) + (64 word \<times> world)" where
  "copyFile env w episodeName tempFile =
     (case fsCreate env (fs w) episodeName (Bytes tempFile) of
        Inl err \<Rightarrow> Inl (err, w)
      | Inr (fileSize, f) \<Rightarrow> Inr (fileSize, w\<lparr> fs := f \<rparr>))"

text \<open>The branch with segments: plan the keep intervals, run the transcoder on the rendered
  filter graph, and copy its output to file storage.\<close>

definition trimFile ::
  "env \<Rightarrow> feed \<Rightarrow> world \<Rightarrow> episode \<Rightarrow> string \<Rightarrow> TempFile \<Rightarrow> segment list \<Rightarrow>
   (error \<times> world) + (64 word \<times> world)" where
  "trimFile env feedConfig w ep episodeName tempFile segments =
     (case planKeeps (SponsorBlockCategories feedConfig) segments of
        Inl err \<Rightarrow> Inl (err, w)
      | Inr keeps \<Rightarrow>
          (case TempDir env of
             None \<Rightarrow> Inl (Wrap ''failed to get temp dir for ffmpeg'' TempDirError, w)
           | Some tmpDir \<Rightarrow>
               (let path = processedPath env tmpDir ep (Format feedConfig);
                    args = ffmpegArgs (Format feedConfig) (Fullpath tempFile)
                             (buildFilter env (Format feedConfig) keeps) path;
                    w' = w\<lparr> calls := calls w @ [CallFfmpeg args] \<rparr>
                in case ffmpeg env args of
                     StartFailed \<Rightarrow> Inl (Wrap ''Error running ffmpeg'' ExecError, w')
                   | WaitFailed \<Rightarrow> Inl (Wrap ''Error running ffmpeg'' ExecError, w')
                   | Exited out \<Rightarrow>
                       (case out of
                          None \<Rightarrow> Inl (OpenError path, w')
                        | Some n \<Rightarrow>
                            (case fsCreate env (fs w') episodeName n of
                               Inl err \<Rightarrow> Inl (err, w')
                             | Inr (fileSize, f) \<Rightarrow> Inr (fileSize, w'\<lparr> fs := f \<rparr>))))))"

text \<open>One iteration of the loop over \<^verbatim>\<open>downloadList\<close> ends in \<^verbatim>\<open>continue\<close> (or falls
  through to the next iteration), in \<^verbatim>\<open>break\<close>, or in \<^verbatim>\<open>return err\<close>.\<close>

datatype step = Continue world | Break world | Return error world

fun stepWorld :: "step \<Rightarrow> world" where
  "stepWorld (Continue w) = w"
| "stepWorld (Break w) = w"
| "stepWorld (Return err w) = w"

definition markDownloaded :: "64 word \<Rightarrow> episode \<Rightarrow> episode" where
  "markDownloaded n e = e\<lparr> Size := n, Status := EpisodeDownloaded \<rparr>"

definition markError :: "episode \<Rightarrow> episode" where
  "markError e = e\<lparr> Status := EpisodeError \<rparr>"

text \<open>The test \<^verbatim>\<open>len(segments) == 0\<close> that chooses between the two branches.\<close>

definition storeMedia ::
  "env \<Rightarrow> feed \<Rightarrow> world \<Rightarrow> episode \<Rightarrow> string \<Rightarrow> TempFile \<Rightarrow> segment list \<Rightarrow>
   (error \<times> world) + (64 word \<times> world)" where
  "storeMedia env feedConfig w ep episodeName tempFile segments =
     (if length segments = 0 then copyFile env w episodeName tempFile
      else trimFile env feedConfig w ep episodeName tempFile segments)"

text \<open>The second half of an iteration, from the call of the downloader on: the download, the
  copy or the trim, and the update of the episode in the store.\<close>

definition downloadAndStore ::
  "env \<Rightarrow> feed \<Rightarrow> world \<Rightarrow> episode \<Rightarrow> string \<Rightarrow> segment list \<Rightarrow> step" where
  "downloadAndStore env feedConfig w ep episodeName segments =
     (let w1 = w\<lparr> calls := calls w @ [CallDownload (ID ep)] \<rparr> in
      case Download env feedConfig ep of
        TooManyRequests \<Rightarrow> Break w1
      | DownloadFailed \<Rightarrow>
          (case dbUpdateEpisode env (db w1) (ID ep) markError of
             Inl err \<Rightarrow> Return err w1
           | Inr d \<Rightarrow> Continue (w1\<lparr> db := d \<rparr>))
      | DownloadOk tempFile \<Rightarrow>
          (case storeMedia env feedConfig w1 ep episodeName tempFile segments of
             Inl (err, w2) \<Rightarrow> Return err w2
           | Inr (fileSize, w2) \<Rightarrow>
               (case dbUpdateEpisode env (db w2) (ID ep) (markDownloaded fileSize) of
                  Inl err \<Rightarrow> Return err w2
                | Inr d \<Rightarrow> Continue (w2\<lparr> db := d \<rparr>))))"

text \<open>The first half of an iteration: the check whether the blob already exists, the
  sponsor-segment lookup and the two tests that skip the episode for now.\<close>

definition processEpisode :: "env \<Rightarrow> feed \<Rightarrow> world \<Rightarrow> episode \<Rightarrow> step" where
  "processEpisode env feedConfig w ep =
     (let episodeName = EpisodeName env feedConfig ep in
      case fsSize env (fs w) episodeName of
        Inr n \<Rightarrow>
          (case dbUpdateEpisode env (db w) (ID ep) (markDownloaded n) of
             Inl err \<Rightarrow> Return err w
           | Inr d \<Rightarrow> Continue (w\<lparr> db := d \<rparr>))
      | Inl err \<Rightarrow>
          if err \<noteq> NotExist then Return err w
          else
            (let segments = fetchSegments env feedConfig ep in
             if SponsorblockMode feedConfig = ''require'' \<and> length segments = 0 then Continue w
             else if SponsorblockMode feedConfig = ''requiredelay'' \<and> length segments = 0 \<and>
                     \<not> delayPassed env feedConfig ep then Continue w
             else downloadAndStore env feedConfig w ep episodeName segments))"

text \<open>The deferral condition in the words of the specification: mode \<open>require\<close> and no
  segments returned, or mode \<open>requiredelay\<close>, no segments returned and the delay since
  publish not yet elapsed.\<close>

definition deferred :: "env \<Rightarrow> feed \<Rightarrow> episode \<Rightarrow> bool" where
  "deferred env feedConfig ep =
     (SponsorblockMode feedConfig = ''require'' \<and> fetchSegments env feedConfig ep = [] \<or>
      SponsorblockMode feedConfig = ''requiredelay'' \<and> fetchSegments env feedConfig ep = [] \<and>
      \<not> delayPassed env feedConfig ep)"

fun downloadLoop :: "env \<Rightarrow> feed \<Rightarrow> world \<Rightarrow> episode list \<Rightarrow> error option \<times> world" where
  "downloadLoop env feedConfig w [] = (None, w)"
| "downloadLoop env feedConfig w (ep # rest) =
     (case processEpisode env feedConfig w ep of
        Continue w' \<Rightarrow> downloadLoop env feedConfig w' rest
      | Break w' \<Rightarrow> (None, w')
      | Return err w' \<Rightarrow> (Some err, w'))"

definition downloadEpisodes :: "env \<Rightarrow> feed \<Rightarrow> world \<Rightarrow> error option \<times> world" where
  "downloadEpisodes env feedConfig w =
     (case dbWalkEpisodes env (db w) of
        Inl err \<Rightarrow> (Some (Wrap ''failed to build update list'' err), w)
      | Inr eps \<Rightarrow>
          (let downloadList = buildDownloadList env feedConfig eps in
           if length downloadList > 0 then downloadLoop env feedConfig w downloadList
           else (None, w)))"

section \<open>Retention cleaner\<close>

text \<open>The comparison handed to \<^verbatim>\<open>sort.Slice\<close>: the first episode was published after the
  second.\<close>

definition After :: "episode \<Rightarrow> episode \<Rightarrow> bool" where
  "After a b = (PubDate a > PubDate b)"

definition markCleaned :: "episode \<Rightarrow> episode" where
  "markCleaned e = e\<lparr> Status := EpisodeCleaned, Title := [], Description := [] \<rparr>"

text \<open>The loop over \<^verbatim>\<open>list[count:]\<close> with the accumulated \<^verbatim>\<open>result\<close>.\<close>

fun cleanLoop :: "env \<Rightarrow> feed \<Rightarrow> episode list \<Rightarrow> error list \<times> world \<Rightarrow> error list \<times> world" where
  "cleanLoop env feedConfig [] st = st"
| "cleanLoop env feedConfig (ep # rest) (result, w) =
     (case fsDelete env (fs w) (EpisodeName env feedConfig ep) of
        Inl err \<Rightarrow>
          cleanLoop env feedConfig rest
            (result @ [Wrap (''failed to delete episode: '' @ ID ep) err], w)
      | Inr f \<Rightarrow>
          (case dbUpdateEpisode env (db w) (ID ep) markCleaned of
             Inl err \<Rightarrow>
               cleanLoop env feedConfig rest
                 (result @ [Wrap (''failed to set state for cleaned episode: '' @ ID ep) err],
                  w\<lparr> fs := f \<rparr>)
           | Inr d \<Rightarrow> cleanLoop env feedConfig rest (result, w\<lparr> fs := f, db := d \<rparr>)))"

definition ErrorOrNil :: "error list \<Rightarrow> error option" where
  "ErrorOrNil result = (if result = [] then None else Some (MultiError result))"

definition cleanup :: "env \<Rightarrow> feed \<Rightarrow> world \<Rightarrow> error option \<times> world" where
  "cleanup env feedConfig w =
     (let count = KeepLast (Clean feedConfig) in
      if count < 1 then (None, w)
      else
        case dbWalkEpisodes env (db w) of
          Inl err \<Rightarrow> (Some err, w)
        | Inr eps \<Rightarrow>
            (let list = filter (\<lambda>e. Status e = EpisodeDownloaded) eps in
             if count > int (length list) then (None, w)
             else
               case cleanLoop env feedConfig (drop (nat count) (sortSlice env After list)) ([], w) of
                 (result, w') \<Rightarrow> (ErrorOrNil result, w')))"

text \<open>The cleaner in the words of the specification. The episodes with status
  \<open>Downloaded\<close>, sorted by publish timestamp with the newest first, split into the first
  \<open>N\<close> (the newest, which stay) and the rest (the excess, which is cleaned).\<close>

definition downloadedEpisodes :: "world \<Rightarrow> episode list" where
  "downloadedEpisodes w = filter (\<lambda>e. Status e = EpisodeDownloaded) (db w)"

definition newest :: "env \<Rightarrow> feed \<Rightarrow> world \<Rightarrow> episode list" where
  "newest env feedConfig w =
     take (nat (KeepLast (Clean feedConfig))) (sortSlice env After (downloadedEpisodes w))"

definition excess :: "env \<Rightarrow> feed \<Rightarrow> world \<Rightarrow> episode list" where
  "excess env feedConfig w =
     drop (nat (KeepLast (Clean feedConfig))) (sortSlice env After (downloadedEpisodes w))"

text \<open>What \<^verbatim>\<open>sort.Slice\<close> guarantees for the list it is given: the result is a
  rearrangement of the list in which no later element is less than an earlier one.\<close>

definition sortSlice_sorts :: "env \<Rightarrow> episode list \<Rightarrow> bool" where
  "sortSlice_sorts env xs =
     (mset (sortSlice env After xs) = mset xs \<and>
      sorted_wrt (\<lambda>a b. \<not> After b a) (sortSlice env After xs))"

text \<open>The two steps of cleaning one episode, either of which can fail, and the error the
  cleaner records for the episode.\<close>

definition blobDeleted :: "env \<Rightarrow> feed \<Rightarrow> episode \<Rightarrow> bool" where
  "blobDeleted env feedConfig e = (\<not> fsFault env (OpDelete (EpisodeName env feedConfig e)))"

definition stateSet :: "env \<Rightarrow> episode \<Rightarrow> bool" where
  "stateSet env e = (\<not> dbFault env (OpUpdateEpisode (ID e)))"

definition failure :: "env \<Rightarrow> feed \<Rightarrow> episode \<Rightarrow> error list" where
  "failure env feedConfig e =
     (if \<not> blobDeleted env feedConfig e
      then [Wrap (''failed to delete episode: '' @ ID e)
              (FsError (OpDelete (EpisodeName env feedConfig e)))]
      else if \<not> stateSet env e
      then [Wrap (''failed to set state for cleaned episode: '' @ ID e)
              (DbError (OpUpdateEpisode (ID e)))]
      else [])"

text \<open>The file storage and the store after the episodes \<open>xs\<close> were cleaned.\<close>

definition cleanedFs ::
  "env \<Rightarrow> feed \<Rightarrow> episode list \<Rightarrow> (string \<rightharpoonup> 64 word) \<Rightarrow> (string \<rightharpoonup> 64 word)" where
  "cleanedFs env feedConfig xs f =
     (\<lambda>name. if name \<in> set (map (EpisodeName env feedConfig)
                                 (filter (blobDeleted env feedConfig) xs))
             then None else f name)"

definition cleanedDb :: "env \<Rightarrow> feed \<Rightarrow> episode list \<Rightarrow> episode list \<Rightarrow> episode list" where
  "cleanedDb env feedConfig xs d =
     map (\<lambda>x. if ID x \<in> set (map ID (filter (\<lambda>e. blobDeleted env feedConfig e \<and>
                                                    stateSet env e) xs))
              then markCleaned x else x) d"

section \<open>Example data\<close>

text \<open>A toy regular-expression engine for the examples: \<open>(\<close> does not compile, every other
  pattern matches exactly itself.\<close>

definition exRegexp :: "string \<Rightarrow> (string \<Rightarrow> bool) option" where
  "exRegexp p = (if p = ''('' then None else Some (\<lambda>s. s = p))"

text \<open>An insertion sort for the examples.\<close>

fun exInsert :: "('a \<Rightarrow> 'a \<Rightarrow> bool) \<Rightarrow> 'a \<Rightarrow> 'a list \<Rightarrow> 'a list" where
  "exInsert lt x [] = [x]"
| "exInsert lt x (y # ys) = (if lt y x then y # exInsert lt x ys else x # y # ys)"

definition exSortSlice :: "('a \<Rightarrow> 'a \<Rightarrow> bool) \<Rightarrow> 'a list \<Rightarrow> 'a list" where
  "exSortSlice lt xs = foldr (exInsert lt) xs []"

text \<open>The rendering of the three numbers that occur in the examples.\<close>

definition exFmtFloat :: "real \<Rightarrow> string" where
  "exFmtFloat x =
     (if x = 10 then ''10.000000'' else if x = 20 then ''20.000000'' else ''0.000000'')"

definition exEnv :: env where
  "exEnv =
     \<lparr> regexpCompile = exRegexp,
       now = 1000000000000,
       dbFault = (\<lambda>_. False),
       fsFault = (\<lambda>_. False),
       rangeKeys = rev,
       fetchListing = (\<lambda>_. Inl ProviderError),
       EpisodeName = (\<lambda>c e. ID e @ ''.mp4''),
       ApiUrl = ''https://sponsor.ajay.app'',
       httpGet = (\<lambda>_. Response 404 []),
       Download = (\<lambda>c e. DownloadOk \<lparr> Fullpath = ''/tmp/dl/'' @ ID e, Bytes = 1000 \<rparr>),
       TempDir = Some ''/tmp/podsync-ffmpeg-1'',
       ffmpeg = (\<lambda>_. Exited (Some 600)),
       sortSlice = exSortSlice,
       fmtFloat = exFmtFloat,
       filepathJoin = (\<lambda>dir name. dir @ ''/'' @ name) \<rparr>"

definition exFeed :: feed where
  "exFeed =
     \<lparr> FeedID = ''feed'',
       PageSize = 3,
       Format = ''video'',
       Filters = \<lparr> FTitle = [], FNotTitle = [], FDescription = [], FNotDescription = [] \<rparr>,
       Clean = \<lparr> KeepLast = 0 \<rparr>,
       SponsorblockMode = ''off'',
       SponsorblockDelay = 0,
       SponsorBlockCategories =
         \<lparr> Sponsors = ''cut'', Intermissions = ''keep'', Endcards = ''keep'',
           InteractionReminders = ''keep'', SelfPromotions = ''keep'',
           NonmusicSections = ''cut'' \<rparr> \<rparr>"

definition exEpisode :: "string \<Rightarrow> int \<Rightarrow> EpisodeStatus \<Rightarrow> episode" where
  "exEpisode i t st =
     \<lparr> ID = i, Title = ''title'', Description = ''text'', PubDate = t,
       VideoURL = ''https://youtu.be/'' @ i, Size = 0, Status = st \<rparr>"

definition exStore :: "episode list" where
  "exStore =
     [exEpisode ''a'' 100 EpisodeNew, exEpisode ''b'' 200 EpisodeDownloaded,
      exEpisode ''c'' 300 EpisodeError, exEpisode ''e'' 400 EpisodeCleaned]"

definition exListing :: listing where
  "exListing =
     \<lparr> ListingTitle = ''channel'',
       Episodes = [exEpisode ''c'' 300 EpisodeNew, exEpisode ''f'' 500 EpisodeNew] \<rparr>"

definition exStore' :: "episode list" where
  "exStore' =
     [exEpisode ''b'' 200 EpisodeDownloaded, exEpisode ''c'' 300 EpisodeError,
      exEpisode ''e'' 400 EpisodeCleaned, exEpisode ''f'' 500 EpisodeNew]"

definition exEnvL :: env where
  "exEnvL = exEnv\<lparr> fetchListing := (\<lambda>_. Inr exListing) \<rparr>"

definition exFeedRequire :: feed where
  "exFeedRequire = exFeed\<lparr> SponsorblockMode := ''require'' \<rparr>"

definition exWorld :: world where
  "exWorld = \<lparr> db = exStore, fs = Map.empty, calls = [] \<rparr>"

definition exWorldBlob :: world where
  "exWorldBlob = \<lparr> db = exStore, fs = [''a.mp4'' \<mapsto> 777], calls = [] \<rparr>"

definition exFive :: "episode list" where
  "exFive =
     [exEpisode ''e1'' 100 EpisodeNew, exEpisode ''e2'' 200 EpisodeNew,
      exEpisode ''e3'' 300 EpisodeNew, exEpisode ''e4'' 400 EpisodeNew,
      exEpisode ''e5'' 500 EpisodeNew]"

definition exMixed :: "episode list" where
  "exMixed =
     [(exEpisode ''x1'' 100 EpisodeNew)\<lparr> Title := ''other'' \<rparr>,
      (exEpisode ''x2'' 200 EpisodeNew)\<lparr> Title := ''other'' \<rparr>,
      (exEpisode ''x3'' 300 EpisodeNew)\<lparr> Title := ''other'' \<rparr>,
      exEpisode ''m1'' 400 EpisodeNew, exEpisode ''m2'' 500 EpisodeNew]"

definition exFeedTitle :: feed where
  "exFeedTitle =
     exFeed\<lparr> Filters := \<lparr> FTitle = ''title'', FNotTitle = [], FDescription = [],
                            FNotDescription = [] \<rparr> \<rparr>"

definition exWorldFive :: world where
  "exWorldFive = \<lparr> db = exFive, fs = Map.empty, calls = [] \<rparr>"

definition exSegment :: segment where
  "exSegment = \<lparr> Segment = [10, 20], UUID = ''u1'', Category = ''sponsor'' \<rparr>"

definition exEnvTrim :: env where
  "exEnvTrim = exEnv\<lparr> httpGet := (\<lambda>_. Response 200 [exSegment]), ffmpeg := (\<lambda>_. WaitFailed) \<rparr>"

definition exFeedDelay :: feed where
  "exFeedDelay = exFeed\<lparr> SponsorblockMode := ''delay'' \<rparr>"

definition exEnvFail :: env where
  "exEnvFail =
     exEnv\<lparr> Download := (\<lambda>c e. if ID e = ''e1'' then DownloadFailed
                              else if ID e = ''e2'' then TooManyRequests
                              else DownloadOk \<lparr> Fullpath = ''/tmp/dl/'' @ ID e, Bytes = 1000 \<rparr>) \<rparr>"

definition exWorldFiveErr :: world where
  "exWorldFiveErr =
     \<lparr> db = [exEpisode ''e1'' 100 EpisodeError, exEpisode ''e2'' 200 EpisodeNew,
             exEpisode ''e3'' 300 EpisodeNew, exEpisode ''e4'' 400 EpisodeNew,
             exEpisode ''e5'' 500 EpisodeNew],
       fs = Map.empty,
       calls = [CallDownload ''e1''] \<rparr>"


definition exDownloaded :: "string \<Rightarrow> int \<Rightarrow> episode" where
  "exDownloaded i t = exEpisode i t EpisodeDownloaded"

definition exWorldClean :: world where
  "exWorldClean =
     \<lparr> db = [exDownloaded ''d1'' 100, exDownloaded ''d2'' 200, exDownloaded ''d3'' 300,
             exDownloaded ''d4'' 400, exDownloaded ''d5'' 500, exEpisode ''n6'' 600 EpisodeNew],
       fs = [''d1.mp4'' \<mapsto> 10, ''d2.mp4'' \<mapsto> 20, ''d3.mp4'' \<mapsto> 30, ''d4.mp4'' \<mapsto> 40,
             ''d5.mp4'' \<mapsto> 50],
       calls = [] \<rparr>"

definition exFeedKeep2 :: feed where
  "exFeedKeep2 = exFeed\<lparr> Clean := \<lparr> KeepLast = 2 \<rparr> \<rparr>"

definition exEnvClean :: env where
  "exEnvClean = exEnv\<lparr> fsFault := (\<lambda>op. op = OpDelete ''d2.mp4'') \<rparr>"

definition exRecent :: episode where
  "exRecent = exEpisode ''r'' 999999995000 EpisodeNew"

definition exWorldRecent :: world where
  "exWorldRecent = \<lparr> db = [exRecent], fs = Map.empty, calls = [] \<rparr>"

definition exFeedRequireDelay :: feed where
  "exFeedRequireDelay =
     exFeed\<lparr> SponsorblockMode := ''requiredelay'', SponsorblockDelay := 10000 \<rparr>"

definition exFeedRequireDelayShort :: feed where
  "exFeedRequireDelayShort =
     exFeed\<lparr> SponsorblockMode := ''requiredelay'', SponsorblockDelay := 1000 \<rparr>"

section \<open>Filter engine: properties\<close>

lemma matchRegexpFilter_gate:
  "matchRegexpFilter env pattern str negative = gate_spec env negative pattern str"
  by (cases "regexpCompile env pattern"; cases negative)
     (auto simp: matchRegexpFilter_def MatchString_def gate_spec_def)

text \<open>
  Claim C8. The filter engine accepts an episode exactly when the four gates pass: title,
  not_title, description, not_description. An empty pattern passes, a pattern that does not
  compile passes, a positive pattern passes iff it matches its field, a negative pattern passes
  iff it does not match; a not_title pattern that compiles and matches the title excludes the
  episode.
\<close>

theorem matchFilters_iff_gates:
  "matchFilters env ep f =
     (gate_spec env False (FTitle f) (Title ep) \<and>
      gate_spec env True (FNotTitle f) (Title ep) \<and>
      gate_spec env False (FDescription f) (Description ep) \<and>
      gate_spec env True (FNotDescription f) (Description ep))
   \<and> (\<forall>negative str. gate_spec env negative [] str)
   \<and> (\<forall>negative pattern str.
         regexpCompile env pattern = None \<longrightarrow> gate_spec env negative pattern str)
   \<and> (\<forall>pattern str m.
         pattern \<noteq> [] \<and> regexpCompile env pattern = Some m \<longrightarrow>
         gate_spec env False pattern str = m str \<and>
         gate_spec env True pattern str = (\<not> m str))
   \<and> (\<forall>m. FNotTitle f \<noteq> [] \<and> regexpCompile env (FNotTitle f) = Some m \<and> m (Title ep) \<longrightarrow>
         \<not> matchFilters env ep f)"
  by (auto simp: matchFilters_def matchRegexpFilter_gate gate_spec_def)

theorem matchFilters_iff_gates_witness:
  "\<not> matchFilters exEnv (exEpisode ''a'' 0 EpisodeNew)
       \<lparr> FTitle = [], FNotTitle = ''title'', FDescription = ''('', FNotDescription = [] \<rparr>
   \<and> matchFilters exEnv (exEpisode ''a'' 0 EpisodeNew)
       \<lparr> FTitle = ''title'', FNotTitle = ''other'', FDescription = ''('', FNotDescription = [] \<rparr>"
  using matchFilters_iff_gates [of exEnv "exEpisode ''a'' 0 EpisodeNew"
      "\<lparr> FTitle = [], FNotTitle = ''title'', FDescription = ''('', FNotDescription = [] \<rparr>"]
    matchFilters_iff_gates [of exEnv "exEpisode ''a'' 0 EpisodeNew"
      "\<lparr> FTitle = ''title'', FNotTitle = ''other'', FDescription = ''('', FNotDescription = [] \<rparr>"]
  by (simp add: exEnv_def exRegexp_def exEpisode_def gate_spec_def)

section \<open>Episode reconciler: properties\<close>

lemma set_foldl_collect:
  "set (foldl collect acc eps) =
     set acc \<union> ID ` {e \<in> set eps. Status e \<noteq> EpisodeDownloaded \<and> Status e \<noteq> EpisodeCleaned}"
  by (induction eps arbitrary: acc) (auto simp: collect_def)

lemma set_foldl_removeAll:
  "set (foldl (\<lambda>s ep. removeAll (ID ep) s) ks eps) = set ks - ID ` set eps"
  by (induction eps arbitrary: ks) auto

lemma ID_refresh [simp]: "ID (refresh old new) = ID old"
  and Status_refresh [simp]: "Status (refresh old new) = Status old"
  by (simp_all add: refresh_def)

lemma refresh_refresh [simp]: "refresh (refresh old r) r' = refresh old r'"
  by (simp add: refresh_def)

lemma map_idst_upsert:
  "map (\<lambda>e. (ID e, Status e)) (upsert d r) =
     (if ID r \<in> ID ` set d then map (\<lambda>e. (ID e, Status e)) d
      else map (\<lambda>e. (ID e, Status e)) d @ [(ID r, EpisodeNew)])"
  by (simp add: upsert_def)

lemma map_idst_foldl_upsert:
  "\<exists>new. map (\<lambda>e. (ID e, Status e)) (foldl upsert d eps) = map (\<lambda>e. (ID e, Status e)) d @ new"
proof (induction eps arbitrary: d)
  case Nil
  then show ?case by simp
next
  case (Cons r eps)
  from Cons.IH[of "upsert d r"] show ?case
    by (auto simp: map_idst_upsert split: if_splits)
qed

lemma map_ID_upsert:
  "map ID (upsert d r) = (if ID r \<in> ID ` set d then map ID d else map ID d @ [ID r])"
  by (simp add: upsert_def)

lemma ids_upsert: "ID ` set (upsert d r) = insert (ID r) (ID ` set d)"
proof -
  have "ID ` set (upsert d r) = set (map ID (upsert d r))" by simp
  also have "\<dots> = insert (ID r) (ID ` set d)"
    unfolding map_ID_upsert by auto
  finally show ?thesis .
qed

lemma ids_foldl_upsert: "ID ` set (foldl upsert d eps) = ID ` set d \<union> ID ` set eps"
  by (induction eps arbitrary: d) (auto simp: ids_upsert)

lemma wf_upsert: "wf_store d \<Longrightarrow> wf_store (upsert d r)"
  by (auto simp: wf_store_def map_ID_upsert)

lemma wf_foldl_upsert: "wf_store d \<Longrightarrow> wf_store (foldl upsert d eps)"
  by (induction eps arbitrary: d) (auto simp: wf_upsert)

lemma foldl_upsert_keeps_status:
  assumes "e \<in> set d"
  shows "(ID e, Status e) \<in> (\<lambda>e. (ID e, Status e)) ` set (foldl upsert d eps)"
proof -
  obtain new where
    "map (\<lambda>e. (ID e, Status e)) (foldl upsert d eps) = map (\<lambda>e. (ID e, Status e)) d @ new"
    using map_idst_foldl_upsert by blast
  then have "set (map (\<lambda>e. (ID e, Status e)) d) \<subseteq> set (map (\<lambda>e. (ID e, Status e)) (foldl upsert d eps))"
    by simp
  with assms show ?thesis by auto
qed

lemma deleteLoop_result:
  "deleteLoop env ks d = (r, d') \<Longrightarrow>
     \<exists>S. S \<subseteq> set ks \<and> d' = filter (\<lambda>e. ID e \<notin> S) d \<and> (r = None \<longrightarrow> S = set ks)"
proof (induction ks arbitrary: d)
  case Nil
  then show ?case by auto
next
  case (Cons k ks)
  show ?case
  proof (cases "dbFault env (OpDeleteEpisode k)")
    case True
    with Cons.prems have "r \<noteq> None" "d' = d" by (auto simp: dbDeleteEpisode_def)
    then show ?thesis by (intro exI[of _ "{}"]) auto
  next
    case False
    with Cons.prems have "deleteLoop env ks (filter (\<lambda>e. ID e \<noteq> k) d) = (r, d')"
      by (simp add: dbDeleteEpisode_def)
    from Cons.IH[OF this] obtain S where S: "S \<subseteq> set ks"
      "d' = filter (\<lambda>e. ID e \<notin> S) (filter (\<lambda>e. ID e \<noteq> k) d)" "r = None \<longrightarrow> S = set ks"
      by blast
    show ?thesis
      by (rule exI[of _ "insert k S"]) (use S in \<open>auto intro: filter_cong\<close>)
  qed
qed


lemma reconcile_cases:
  assumes "reconcile env result d = (r, d')"
  shows "(r \<noteq> None \<and> d' = d) \<or>
         (\<not> dbFault env OpWalkEpisodes \<and> \<not> dbFault env OpAddFeed \<and>
          (\<exists>S. S \<subseteq> set (rangeKeys env (foldl (\<lambda>s ep. removeAll (ID ep) s) (foldl collect [] d) (Episodes result))) \<and>
               d' = filter (\<lambda>e. ID e \<notin> S) (foldl upsert d (Episodes result)) \<and>
               (r = None \<longrightarrow> S = set (rangeKeys env (foldl (\<lambda>s ep. removeAll (ID ep) s) (foldl collect [] d) (Episodes result))))))"
proof (cases "dbFault env OpWalkEpisodes \<or> dbFault env OpAddFeed")
  case True
  with assms show ?thesis
    by (cases "dbFault env OpWalkEpisodes")
       (auto simp: reconcile_def dbWalkEpisodes_def dbAddFeed_def Let_def)
next
  case False
  with assms have "deleteLoop env (rangeKeys env (foldl (\<lambda>s ep. removeAll (ID ep) s) (foldl collect [] d) (Episodes result)))
      (foldl upsert d (Episodes result)) = (r, d')"
    by (simp add: reconcile_def dbWalkEpisodes_def dbAddFeed_def Let_def)
  from deleteLoop_result[OF this] False show ?thesis by blast
qed

lemma stale_keys:
  assumes "rangeVisitsKeys env"
  shows "set (rangeKeys env (foldl (\<lambda>s ep. removeAll (ID ep) s) (foldl collect [] d) eps)) =
     ID ` {e \<in> set d. Status e \<noteq> EpisodeDownloaded \<and> Status e \<noteq> EpisodeCleaned} - ID ` set eps"
  using assms by (simp add: rangeVisitsKeys_def set_foldl_removeAll set_foldl_collect)

lemma wf_store_inj: "wf_store d \<Longrightarrow> e \<in> set d \<Longrightarrow> e' \<in> set d \<Longrightarrow> ID e = ID e' \<Longrightarrow> e = e'"
  by (auto simp: wf_store_def distinct_map dest: inj_onD)

text \<open>
  Claim C1. Reconciling the store against a freshly fetched listing never removes an episode
  whose status is \<open>Downloaded\<close> or \<open>Cleaned\<close>, whatever the outcome of the run; and after a
  run that returns no error, a previously stored episode is gone from the store exactly when
  its status was \<open>New\<close> or \<open>Error\<close> and its ID is absent from the listing.
\<close>

theorem updateFeed_deletes_iff:
  assumes wf: "wf_store d" and rk: "rangeVisitsKeys env"
    and fetch: "fetchListing env feedConfig = Inr result"
    and run: "updateFeed env feedConfig d = (r, d')"
  shows "(\<forall>e \<in> set d. Status e = EpisodeDownloaded \<or> Status e = EpisodeCleaned \<longrightarrow>
            ID e \<in> ID ` set d') \<and>
         (r = None \<longrightarrow>
            (\<forall>e \<in> set d. (ID e \<notin> ID ` set d') =
               ((Status e = EpisodeNew \<or> Status e = EpisodeError) \<and>
                ID e \<notin> ID ` set (Episodes result))))"
proof -
  let ?ks = "rangeKeys env (foldl (\<lambda>s ep. removeAll (ID ep) s) (foldl collect [] d) (Episodes result))"
  let ?U = "foldl upsert d (Episodes result)"
  from run fetch have rec: "reconcile env result d = (r, d')"
    by (simp add: updateFeed_def)
  have ks: "set ?ks = ID ` {e \<in> set d. Status e \<noteq> EpisodeDownloaded \<and> Status e \<noteq> EpisodeCleaned}
      - ID ` set (Episodes result)"
    by (rule stale_keys[OF rk])
  have cand: "ID e \<in> set ?ks \<longleftrightarrow>
      (Status e = EpisodeNew \<or> Status e = EpisodeError) \<and> ID e \<notin> ID ` set (Episodes result)"
    if "e \<in> set d" for e
  proof -
    have "ID e \<in> ID ` {e \<in> set d. Status e \<noteq> EpisodeDownloaded \<and> Status e \<noteq> EpisodeCleaned}
        \<longleftrightarrow> Status e \<noteq> EpisodeDownloaded \<and> Status e \<noteq> EpisodeCleaned"
      using that wf_store_inj[OF wf that] by (auto simp: image_iff)
    then show ?thesis unfolding ks by (cases "Status e") auto
  qed
  have inU: "ID e \<in> ID ` set ?U" if "e \<in> set d" for e
    using that by (auto simp: ids_foldl_upsert)
  from reconcile_cases[OF rec] show ?thesis
  proof
    assume "r \<noteq> None \<and> d' = d"
    then show ?thesis by auto
  next
    assume "\<not> dbFault env OpWalkEpisodes \<and> \<not> dbFault env OpAddFeed \<and>
      (\<exists>S. S \<subseteq> set ?ks \<and> d' = filter (\<lambda>e. ID e \<notin> S) ?U \<and> (r = None \<longrightarrow> S = set ?ks))"
    then obtain S where S: "S \<subseteq> set ?ks" "d' = filter (\<lambda>e. ID e \<notin> S) ?U" "r = None \<longrightarrow> S = set ?ks"
      by blast
    have mem: "ID e \<in> ID ` set d' \<longleftrightarrow> ID e \<notin> S" if "e \<in> set d" for e
      using inU[OF that] unfolding S(2) by (auto simp: image_iff)
    show ?thesis
    proof (intro conjI ballI impI)
      fix e assume e: "e \<in> set d" and st: "Status e = EpisodeDownloaded \<or> Status e = EpisodeCleaned"
      from cand[OF e] st have "ID e \<notin> set ?ks" by auto
      with S(1) have "ID e \<notin> S" by auto
      with mem[OF e] show "ID e \<in> ID ` set d'" by simp
    next
      fix e assume "r = None" and e: "e \<in> set d"
      with S(3) have "S = set ?ks" by simp
      with mem[OF e] cand[OF e]
      show "(ID e \<notin> ID ` set d') =
               ((Status e = EpisodeNew \<or> Status e = EpisodeError) \<and>
                ID e \<notin> ID ` set (Episodes result))" by simp
    qed
  qed
qed


lemma ID_refreshAll [simp]: "ID (refreshAll old eps) = ID old"
  by (induction eps arbitrary: old) (auto simp: refreshAll_def)

lemma refreshAll_Cons:
  "refreshAll old (r # eps) = refreshAll (if ID old = ID r then refresh old r else old) eps"
  by (simp add: refreshAll_def)

lemma refreshAll_snoc:
  "refreshAll old (eps @ [r]) =
     (if ID old = ID r then refresh (refreshAll old eps) r else refreshAll old eps)"
  using ID_refreshAll[of old eps] by (simp add: refreshAll_def del: ID_refreshAll)

lemma refreshAll_cases:
  "refreshAll old eps = old \<or> (\<exists>r \<in> set eps. refreshAll old eps = refresh old r)"
proof (induction eps arbitrary: old)
  case Nil
  then show ?case by (simp add: refreshAll_def)
next
  case (Cons r eps)
  show ?case
  proof (cases "ID old = ID r")
    case True
    from Cons.IH[of "refresh old r"] True show ?thesis
      by (auto simp: refreshAll_Cons)
  next
    case False
    from Cons.IH[of old] False show ?thesis
      by (auto simp: refreshAll_Cons)
  qed
qed

lemma refresh_refreshAll: "refresh (refreshAll old eps) r = refresh old r"
  using refreshAll_cases[of old eps] by auto

lemma foldl_upsert_known:
  "ID ` set eps \<subseteq> ID ` set x \<Longrightarrow> foldl upsert x eps = map (\<lambda>old. refreshAll old eps) x"
proof (induction eps arbitrary: x)
  case Nil
  then show ?case by (simp add: refreshAll_def)
next
  case (Cons r eps)
  let ?f = "\<lambda>old. if ID old = ID r then refresh old r else old"
  from Cons.prems have known: "ID r \<in> ID ` set x" by simp
  then have up: "upsert x r = map ?f x" by (simp add: upsert_def)
  have "ID ` set eps \<subseteq> ID ` set (upsert x r)"
    using Cons.prems by (auto simp: ids_upsert)
  from Cons.IH[OF this] show ?case
    by (simp add: up refreshAll_Cons comp_def)
qed

lemma refresh_self_New: "refresh (r\<lparr>Status := EpisodeNew\<rparr>) r = r\<lparr>Status := EpisodeNew\<rparr>"
  by (simp add: refresh_def)

lemma foldl_upsert_fixed:
  "o' \<in> set (foldl upsert d eps) \<Longrightarrow> refreshAll o' eps = o'"
proof (induction eps arbitrary: o' rule: rev_induct)
  case Nil
  then show ?case by (simp add: refreshAll_def)
next
  case (snoc r eps)
  let ?U = "foldl upsert d eps"
  from snoc.prems have mem: "o' \<in> set (upsert ?U r)" by simp
  show ?case
  proof (cases "ID r \<in> ID ` set ?U")
    case True
    with mem obtain old where old: "old \<in> set ?U"
      "o' = (if ID old = ID r then refresh old r else old)"
      by (auto simp: upsert_def)
    show ?thesis
    proof (cases "ID old = ID r")
      case True
      with old show ?thesis by (simp add: refreshAll_snoc refresh_refreshAll)
    next
      case False
      with old snoc.IH[OF old(1)] show ?thesis by (simp add: refreshAll_snoc)
    qed
  next
    case False
    with mem have "o' \<in> set ?U \<or> o' = r\<lparr>Status := EpisodeNew\<rparr>"
      by (auto simp: upsert_def)
    then show ?thesis
    proof
      assume o': "o' \<in> set ?U"
      with False have "ID o' \<noteq> ID r" by (metis imageI)
      with snoc.IH[OF o'] show ?thesis by (simp add: refreshAll_snoc)
    next
      assume "o' = r\<lparr>Status := EpisodeNew\<rparr>"
      then show ?thesis
        by (simp add: refreshAll_snoc refresh_refreshAll refresh_self_New)
    qed
  qed
qed

lemma foldl_upsert_untouched:
  "e \<in> set (foldl upsert d eps) \<Longrightarrow> ID e \<notin> ID ` set eps \<Longrightarrow> e \<in> set d"
proof (induction eps arbitrary: e rule: rev_induct)
  case Nil
  then show ?case by simp
next
  case (snoc r eps)
  from snoc.prems have "e \<in> set (upsert (foldl upsert d eps) r)" "ID e \<noteq> ID r"
    "ID e \<notin> ID ` set eps" by auto
  then have "e \<in> set (foldl upsert d eps)"
    by (auto simp: upsert_def split: if_splits)
  with snoc.IH \<open>ID e \<notin> ID ` set eps\<close> show ?case by blast
qed

lemma rangeKeys_Nil: "rangeVisitsKeys env \<Longrightarrow> rangeKeys env [] = []"
  using set_empty[of "rangeKeys env []"] by (simp add: rangeVisitsKeys_def)

text \<open>
  Claim C2. Reconciliation is idempotent: after a run that returned no error, a second run with
  the same listing returns no error and leaves the store exactly as the first run left it, and
  no episode whose status is \<open>Downloaded\<close> or \<open>Cleaned\<close> is deleted by either run.
\<close>

theorem updateFeed_idempotent:
  assumes wf: "wf_store d" and rk: "rangeVisitsKeys env"
    and fetch: "fetchListing env feedConfig = Inr result"
    and run: "updateFeed env feedConfig d = (None, d1)"
  shows "updateFeed env feedConfig d1 = (None, d1) \<and>
         (\<forall>e \<in> set d. Status e = EpisodeDownloaded \<or> Status e = EpisodeCleaned \<longrightarrow>
            ID e \<in> ID ` set d1)"
proof -
  let ?eps = "Episodes result"
  let ?ks = "rangeKeys env (foldl (\<lambda>s ep. removeAll (ID ep) s) (foldl collect [] d) ?eps)"
  let ?U = "foldl upsert d ?eps"
  from run fetch have rec: "reconcile env result d = (None, d1)"
    by (simp add: updateFeed_def)
  from reconcile_cases[OF rec]
  have nofault: "\<not> dbFault env OpWalkEpisodes" "\<not> dbFault env OpAddFeed"
    and d1: "d1 = filter (\<lambda>e. ID e \<notin> set ?ks) ?U"
    by auto
  have ks: "set ?ks = ID ` {e \<in> set d. Status e \<noteq> EpisodeDownloaded \<and> Status e \<noteq> EpisodeCleaned}
      - ID ` set ?eps"
    by (rule stale_keys[OF rk])
  have sub: "set d1 \<subseteq> set ?U" unfolding d1 by auto
  have known: "ID ` set ?eps \<subseteq> ID ` set d1"
  proof
    fix i assume i: "i \<in> ID ` set ?eps"
    then have "i \<in> ID ` set ?U" by (simp add: ids_foldl_upsert)
    then obtain e where "e \<in> set ?U" "ID e = i" by auto
    moreover from i have "i \<notin> set ?ks" unfolding ks by simp
    ultimately show "i \<in> ID ` set d1" unfolding d1 by (auto simp: image_iff)
  qed
  have add: "foldl upsert d1 ?eps = d1"
  proof -
    have "foldl upsert d1 ?eps = map (\<lambda>old. refreshAll old ?eps) d1"
      by (rule foldl_upsert_known[OF known])
    also have "\<dots> = map (\<lambda>old. old) d1"
      by (rule map_cong) (use sub foldl_upsert_fixed in auto)
    finally show ?thesis by simp
  qed
  have "set (foldl (\<lambda>s ep. removeAll (ID ep) s) (foldl collect [] d1) ?eps) = {}"
  proof -
    have False if e: "e \<in> set d1" and st: "Status e \<noteq> EpisodeDownloaded" "Status e \<noteq> EpisodeCleaned"
      and new: "ID e \<notin> ID ` set ?eps" for e
    proof -
      from e sub have "e \<in> set ?U" by auto
      from foldl_upsert_untouched[OF this new] have "e \<in> set d" .
      with st new have "ID e \<in> set ?ks" unfolding ks by auto
      with e show False unfolding d1 by simp
    qed
    then show ?thesis
      by (auto simp: set_foldl_removeAll set_foldl_collect)
  qed
  then have "foldl (\<lambda>s ep. removeAll (ID ep) s) (foldl collect [] d1) ?eps = []"
    by simp
  then have "reconcile env result d1 = (None, d1)"
    using nofault add
    by (simp add: reconcile_def dbWalkEpisodes_def dbAddFeed_def Let_def rangeKeys_Nil[OF rk])
  moreover have "\<forall>e \<in> set d. Status e = EpisodeDownloaded \<or> Status e = EpisodeCleaned \<longrightarrow>
            ID e \<in> ID ` set d1"
  proof (intro ballI impI)
    fix e assume e: "e \<in> set d" and st: "Status e = EpisodeDownloaded \<or> Status e = EpisodeCleaned"
    have "ID e \<in> ID ` {e \<in> set d. Status e \<noteq> EpisodeDownloaded \<and> Status e \<noteq> EpisodeCleaned}
        \<longleftrightarrow> Status e \<noteq> EpisodeDownloaded \<and> Status e \<noteq> EpisodeCleaned"
      using e wf_store_inj[OF wf e] by (auto simp: image_iff)
    with st have "ID e \<notin> set ?ks" unfolding ks by auto
    moreover from e have "ID e \<in> ID ` set ?U" by (auto simp: ids_foldl_upsert)
    ultimately show "ID e \<in> ID ` set d1" unfolding d1 by (auto simp: image_iff)
  qed
  ultimately show ?thesis using fetch by (simp add: updateFeed_def)
qed

lemma exStore_run: "updateFeed exEnvL exFeed exStore = (None, exStore')"
  by (simp add: updateFeed_def reconcile_def exEnvL_def exEnv_def exListing_def exStore_def
      exStore'_def exEpisode_def dbWalkEpisodes_def dbAddFeed_def dbDeleteEpisode_def
      collect_def upsert_def refresh_def Let_def)

lemma exStore_hyps:
  "wf_store exStore" "rangeVisitsKeys exEnvL" "fetchListing exEnvL exFeed = Inr exListing"
  by (simp_all add: wf_store_def exStore_def exEpisode_def rangeVisitsKeys_def exEnvL_def
      exEnv_def)

theorem updateFeed_deletes_iff_witness:
  "wf_store exStore \<and> rangeVisitsKeys exEnvL \<and> fetchListing exEnvL exFeed = Inr exListing \<and>
   updateFeed exEnvL exFeed exStore = (None, exStore') \<and>
   ''a'' \<notin> ID ` set exStore' \<and> ''b'' \<in> ID ` set exStore' \<and> ''c'' \<in> ID ` set exStore'"
  using updateFeed_deletes_iff [OF exStore_hyps exStore_run] exStore_hyps exStore_run
  by (simp add: exStore_def exStore'_def exEpisode_def)

theorem updateFeed_idempotent_witness:
  "wf_store exStore \<and> rangeVisitsKeys exEnvL \<and> fetchListing exEnvL exFeed = Inr exListing \<and>
   updateFeed exEnvL exFeed exStore = (None, exStore') \<and>
   updateFeed exEnvL exFeed exStore' = (None, exStore') \<and>
   ''b'' \<in> ID ` set exStore' \<and> ''e'' \<in> ID ` set exStore'"
  using updateFeed_idempotent [OF exStore_hyps exStore_run] exStore_hyps exStore_run
  by (simp add: exStore_def exStore'_def exEpisode_def)

section \<open>Download scheduler: one candidate\<close>

lemma fsSize_existing:
  "fs w name = Some n \<Longrightarrow> \<not> fsFault env (OpSize name) \<Longrightarrow> fsSize env (fs w) name = Inr n"
  by (simp add: fsSize_def)

lemma fsSize_missing:
  "fs w name = None \<Longrightarrow> \<not> fsFault env (OpSize name) \<Longrightarrow> fsSize env (fs w) name = Inl NotExist"
  by (simp add: fsSize_def)

lemma dbUpdateEpisode_known:
  "i \<in> ID ` set d \<Longrightarrow> \<not> dbFault env (OpUpdateEpisode i) \<Longrightarrow>
     dbUpdateEpisode env d i f = Inr (map (\<lambda>e. if ID e = i then f e else e) d)"
  by (simp add: dbUpdateEpisode_def)

text \<open>
  Claim C10. A candidate whose derived blob name already exists in file storage is marked
  \<open>Downloaded\<close> with the size of the existing blob, and the downloader is not called. Nothing
  is assumed about the sponsor-segment mode or the segments: the test comes before the lookup and
  before the two tests that defer, so it also holds in mode \<open>require\<close> or \<open>requiredelay\<close>
  with no segments returned.
\<close>

theorem existing_blob_marks_downloaded:
  assumes blob: "fs w (EpisodeName env feedConfig ep) = Some n"
    and stat: "\<not> fsFault env (OpSize (EpisodeName env feedConfig ep))"
    and known: "ID ep \<in> ID ` set (db w)"
    and upd: "\<not> dbFault env (OpUpdateEpisode (ID ep))"
  shows "processEpisode env feedConfig w ep =
           Continue (w\<lparr> db := map (\<lambda>e. if ID e = ID ep then markDownloaded n e else e) (db w) \<rparr>) \<and>
         (\<forall>e \<in> set (db (stepWorld (processEpisode env feedConfig w ep))).
            ID e = ID ep \<longrightarrow> Status e = EpisodeDownloaded \<and> Size e = n) \<and>
         calls (stepWorld (processEpisode env feedConfig w ep)) = calls w"
proof -
  have "processEpisode env feedConfig w ep =
           Continue (w\<lparr> db := map (\<lambda>e. if ID e = ID ep then markDownloaded n e else e) (db w) \<rparr>)"
    by (simp add: processEpisode_def fsSize_existing[OF blob stat]
        dbUpdateEpisode_known[OF known upd])
  then show ?thesis by (auto simp: markDownloaded_def)
qed

lemma calls_copyFile:
  "copyFile env w name t = Inl (err, w') \<Longrightarrow> calls w' = calls w"
  "copyFile env w name t = Inr (n, w') \<Longrightarrow> calls w' = calls w"
  by (auto simp: copyFile_def split: sum.splits prod.splits)

lemma calls_trimFile:
  "trimFile env c w ep name t segs = Inl (err, w') \<Longrightarrow> \<exists>more. calls w' = calls w @ more"
  "trimFile env c w ep name t segs = Inr (n, w') \<Longrightarrow> \<exists>more. calls w' = calls w @ more"
  by (auto simp: trimFile_def Let_def
      split: sum.splits prod.splits option.splits ffmpeg_result.splits)

lemma calls_storeMedia:
  "storeMedia env c w ep name t segs = Inl (err, w') \<Longrightarrow> \<exists>more. calls w' = calls w @ more"
  "storeMedia env c w ep name t segs = Inr (n, w') \<Longrightarrow> \<exists>more. calls w' = calls w @ more"
proof -
  assume a: "storeMedia env c w ep name t segs = Inl (err, w')"
  show "\<exists>more. calls w' = calls w @ more"
  proof (cases "length segs = 0")
    case True
    with a have "copyFile env w name t = Inl (err, w')" by (simp add: storeMedia_def)
    from calls_copyFile(1)[OF this] show ?thesis by simp
  next
    case False
    with a have "trimFile env c w ep name t segs = Inl (err, w')" by (simp add: storeMedia_def)
    from calls_trimFile(1)[OF this] show ?thesis .
  qed
next
  assume a: "storeMedia env c w ep name t segs = Inr (n, w')"
  show "\<exists>more. calls w' = calls w @ more"
  proof (cases "length segs = 0")
    case True
    with a have "copyFile env w name t = Inr (n, w')" by (simp add: storeMedia_def)
    from calls_copyFile(2)[OF this] show ?thesis by simp
  next
    case False
    with a have "trimFile env c w ep name t segs = Inr (n, w')" by (simp add: storeMedia_def)
    from calls_trimFile(2)[OF this] show ?thesis .
  qed
qed

lemma downloadAndStore_Ok:
  "Download env feedConfig ep = DownloadOk tempFile \<Longrightarrow>
   downloadAndStore env feedConfig w ep name segs =
     (case storeMedia env feedConfig (w\<lparr> calls := calls w @ [CallDownload (ID ep)] \<rparr>) ep name tempFile segs of
        Inl (err, w2) \<Rightarrow> Return err w2
      | Inr (fileSize, w2) \<Rightarrow>
          (case dbUpdateEpisode env (db w2) (ID ep) (markDownloaded fileSize) of
             Inl err \<Rightarrow> Return err w2 | Inr d \<Rightarrow> Continue (w2\<lparr> db := d \<rparr>)))"
  by (simp add: downloadAndStore_def Let_def)

lemma downloadAndStore_calls:
  "\<exists>more. calls (stepWorld (downloadAndStore env feedConfig w ep name segs)) =
           calls w @ CallDownload (ID ep) # more"
proof -
  let ?w1 = "w\<lparr> calls := calls w @ [CallDownload (ID ep)] \<rparr>"
  show ?thesis
  proof (cases "Download env feedConfig ep")
    case TooManyRequests
    then show ?thesis by (simp add: downloadAndStore_def)
  next
    case DownloadFailed
    then show ?thesis
      by (cases "dbUpdateEpisode env (db w) (ID ep) markError")
         (simp_all add: downloadAndStore_def Let_def)
  next
    case (DownloadOk tempFile)
    note pe = downloadAndStore_Ok[OF DownloadOk, of w name segs]
    show ?thesis
    proof (cases "storeMedia env feedConfig ?w1 ep name tempFile segs")
      case (Inl a)
      obtain err w2 where a: "a = (err, w2)" by (cases a)
      from calls_storeMedia(1)[OF Inl[unfolded a]] obtain more where "calls w2 = calls ?w1 @ more"
        by blast
      then show ?thesis unfolding pe Inl a by simp
    next
      case (Inr b)
      obtain n w2 where b: "b = (n, w2)" by (cases b)
      from calls_storeMedia(2)[OF Inr[unfolded b]] obtain more where m: "calls w2 = calls ?w1 @ more"
        by blast
      show ?thesis
      proof (cases "dbUpdateEpisode env (db w2) (ID ep) (markDownloaded n)")
        case (Inl e)
        with m show ?thesis unfolding pe Inr b by simp
      next
        case (Inr d)
        with m show ?thesis unfolding pe \<open>storeMedia env feedConfig ?w1 ep name tempFile segs = Inr b\<close> b
          by simp
      qed
    qed
  qed
qed

lemma processEpisode_missing:
  assumes "fsSize env (fs w) (EpisodeName env feedConfig ep) = Inl NotExist"
  shows "processEpisode env feedConfig w ep =
     (if deferred env feedConfig ep then Continue w
      else downloadAndStore env feedConfig w ep (EpisodeName env feedConfig ep)
             (fetchSegments env feedConfig ep))"
  using assms by (simp add: processEpisode_def deferred_def Let_def)

lemma Microseconds_nonneg: "0 \<le> d \<Longrightarrow> Microseconds d = d div 1000"
  by (cases "d = 0") (simp_all add: Microseconds_def signed_divide_int_def)

lemma Microseconds_neg: "d < 0 \<Longrightarrow> Microseconds d = - ((- d) div 1000)"
  by (simp add: Microseconds_def signed_divide_int_def)

lemma Microseconds_mono: "a \<le> b \<Longrightarrow> Microseconds a \<le> Microseconds b"
proof (cases "0 \<le> a")
  case True
  assume "a \<le> b"
  with True show ?thesis by (simp add: Microseconds_nonneg zdiv_mono1)
next
  case False
  assume ab: "a \<le> b"
  show ?thesis
  proof (cases "0 \<le> b")
    case True
    have "0 \<le> (- a) div 1000" using False by simp
    moreover have "0 \<le> b div 1000" using True by simp
    ultimately show ?thesis using False True
      by (simp add: Microseconds_nonneg Microseconds_neg)
  next
    case bneg: False
    from ab have "(- b) div 1000 \<le> (- a) div 1000" by (intro zdiv_mono1) simp_all
    with False bneg show ?thesis by (simp add: Microseconds_neg)
  qed
qed

lemma delayPassed_not_yet:
  assumes "0 \<le> SponsorblockDelay c" "now env - PubDate ep \<le> SponsorblockDelay c"
  shows "\<not> delayPassed env c ep"
proof -
  from assms have "Since env (PubDate ep) \<le> SponsorblockDelay c"
    by (simp add: Since_def)
  from Microseconds_mono[OF this] show ?thesis by (simp add: delayPassed_def)
qed

lemma delayPassed_after:
  assumes "0 \<le> SponsorblockDelay c" "SponsorblockDelay c + 1000 < 2 ^ 63"
    "SponsorblockDelay c + 1000 \<le> now env - PubDate ep"
  shows "delayPassed env c ep"
proof -
  from assms have "SponsorblockDelay c + 1000 \<le> Since env (PubDate ep)"
    by (simp add: Since_def)
  from Microseconds_mono[OF this] assms(1)
  have "SponsorblockDelay c div 1000 + 1 \<le> Microseconds (Since env (PubDate ep))"
    by (simp add: Microseconds_nonneg)
  with assms(1) show ?thesis by (simp add: delayPassed_def Microseconds_nonneg)
qed

lemma delayPassed_exact:
  assumes "0 \<le> SponsorblockDelay c" "0 \<le> now env - PubDate ep" "now env - PubDate ep < 2 ^ 63"
  shows "delayPassed env c ep =
     (SponsorblockDelay c div 1000 < (now env - PubDate ep) div 1000)"
proof -
  from assms have "Since env (PubDate ep) = now env - PubDate ep"
    by (simp add: Since_def)
  with assms show ?thesis by (simp add: delayPassed_def Microseconds_nonneg)
qed

text \<open>
  Claim C9. For a candidate whose blob does not exist in file storage, the iteration ends in
  \<^verbatim>\<open>continue\<close> with the state unchanged (so the stored status stays what it was, and no
  error is returned) exactly when the mode is \<open>require\<close> and no segments were returned, or
  the mode is \<open>requiredelay\<close>, no segments were returned and the delay has not passed; in
  every other case the downloader is called for the episode. In every mode but \<open>off\<close> the
  segments are what the lookup returned with status 200, and none for a failed request or any
  other status. The delay has passed when the
  whole microseconds since publish exceed the whole microseconds of the configured delay: for a
  configured delay that is not negative, it has not passed while the time since publish is at
  most the delay, and it has passed once the time since publish exceeds the delay by a
  microsecond.
\<close>

theorem deferral_iff:
  assumes blob: "fs w (EpisodeName env feedConfig ep) = None"
    and stat: "\<not> fsFault env (OpSize (EpisodeName env feedConfig ep))"
  shows "(processEpisode env feedConfig w ep = Continue w) =
           (SponsorblockMode feedConfig = ''require'' \<and> fetchSegments env feedConfig ep = [] \<or>
            SponsorblockMode feedConfig = ''requiredelay'' \<and> fetchSegments env feedConfig ep = [] \<and>
            \<not> delayPassed env feedConfig ep) \<and>
         (processEpisode env feedConfig w ep \<noteq> Continue w \<longrightarrow>
            (\<exists>more. calls (stepWorld (processEpisode env feedConfig w ep)) =
               calls w @ CallDownload (ID ep) # more)) \<and>
         (0 \<le> SponsorblockDelay feedConfig \<and> SponsorblockDelay feedConfig + 1000 < 2 ^ 63 \<longrightarrow>
            (now env - PubDate ep \<le> SponsorblockDelay feedConfig \<longrightarrow>
               \<not> delayPassed env feedConfig ep) \<and>
            (SponsorblockDelay feedConfig + 1000 \<le> now env - PubDate ep \<longrightarrow>
               delayPassed env feedConfig ep) \<and>
            (0 \<le> now env - PubDate ep \<and> now env - PubDate ep < 2 ^ 63 \<longrightarrow>
               delayPassed env feedConfig ep =
                 (SponsorblockDelay feedConfig div 1000 < (now env - PubDate ep) div 1000))) \<and>
         (SponsorblockMode feedConfig \<noteq> ''off'' \<longrightarrow>
            (\<forall>segments. httpGet env (segmentsUrl env ep) = Response 200 segments \<longrightarrow>
               fetchSegments env feedConfig ep = segments) \<and>
            (\<forall>status segments.
               httpGet env (segmentsUrl env ep) = Response status segments \<and> status \<noteq> 200 \<longrightarrow>
               fetchSegments env feedConfig ep = []) \<and>
            (httpGet env (segmentsUrl env ep) = GetFailed \<longrightarrow>
               fetchSegments env feedConfig ep = []))"
proof -
  note pe = processEpisode_missing[OF fsSize_missing[OF blob stat]]
  have b: "\<exists>more. calls (stepWorld (processEpisode env feedConfig w ep)) =
               calls w @ CallDownload (ID ep) # more" if "\<not> deferred env feedConfig ep"
    using that downloadAndStore_calls[of env feedConfig w ep] by (simp add: pe)
  have c: "processEpisode env feedConfig w ep \<noteq> Continue w" if "\<not> deferred env feedConfig ep"
  proof
    assume "processEpisode env feedConfig w ep = Continue w"
    with b[OF that] show False by simp
  qed
  have iff: "(processEpisode env feedConfig w ep = Continue w) = deferred env feedConfig ep"
    using c by (auto simp: pe)
  show ?thesis
  proof (intro conjI impI allI)
    show "(processEpisode env feedConfig w ep = Continue w) =
           (SponsorblockMode feedConfig = ''require'' \<and> fetchSegments env feedConfig ep = [] \<or>
            SponsorblockMode feedConfig = ''requiredelay'' \<and> fetchSegments env feedConfig ep = [] \<and>
            \<not> delayPassed env feedConfig ep)"
      unfolding iff by (simp add: deferred_def)
  next
    assume "processEpisode env feedConfig w ep \<noteq> Continue w"
    with iff have "\<not> deferred env feedConfig ep" by simp
    then show "\<exists>more. calls (stepWorld (processEpisode env feedConfig w ep)) =
               calls w @ CallDownload (ID ep) # more" by (rule b)
  next
    assume "0 \<le> SponsorblockDelay feedConfig \<and> SponsorblockDelay feedConfig + 1000 < 2 ^ 63"
      "now env - PubDate ep \<le> SponsorblockDelay feedConfig"
    then show "\<not> delayPassed env feedConfig ep" by (intro delayPassed_not_yet) simp_all
  next
    assume "0 \<le> SponsorblockDelay feedConfig \<and> SponsorblockDelay feedConfig + 1000 < 2 ^ 63"
      "SponsorblockDelay feedConfig + 1000 \<le> now env - PubDate ep"
    then show "delayPassed env feedConfig ep" by (intro delayPassed_after) simp_all
  next
    assume "0 \<le> SponsorblockDelay feedConfig \<and> SponsorblockDelay feedConfig + 1000 < 2 ^ 63"
      "0 \<le> now env - PubDate ep \<and> now env - PubDate ep < 2 ^ 63"
    then show "delayPassed env feedConfig ep =
                 (SponsorblockDelay feedConfig div 1000 < (now env - PubDate ep) div 1000)"
      by (intro delayPassed_exact) simp_all
  next
    fix segments
    assume "SponsorblockMode feedConfig \<noteq> ''off''"
      "httpGet env (segmentsUrl env ep) = Response 200 segments"
    then show "fetchSegments env feedConfig ep = segments" by (simp add: fetchSegments_def)
  next
    fix status segments
    assume "SponsorblockMode feedConfig \<noteq> ''off''"
      "httpGet env (segmentsUrl env ep) = Response status segments \<and> status \<noteq> 200"
    then show "fetchSegments env feedConfig ep = []" by (simp add: fetchSegments_def)
  next
    assume "SponsorblockMode feedConfig \<noteq> ''off''"
      "httpGet env (segmentsUrl env ep) = GetFailed"
    then show "fetchSegments env feedConfig ep = []" by (simp add: fetchSegments_def)
  qed
qed

lemma exWorldBlob_hyps:
  "fs exWorldBlob (EpisodeName exEnv exFeedRequire (exEpisode ''a'' 100 EpisodeNew)) = Some 777"
  "\<not> fsFault exEnv (OpSize (EpisodeName exEnv exFeedRequire (exEpisode ''a'' 100 EpisodeNew)))"
  "ID (exEpisode ''a'' 100 EpisodeNew) \<in> ID ` set (db exWorldBlob)"
  "\<not> dbFault exEnv (OpUpdateEpisode (ID (exEpisode ''a'' 100 EpisodeNew)))"
  by (simp_all add: exWorldBlob_def exEnv_def exEpisode_def exStore_def)

theorem existing_blob_marks_downloaded_witness:
  "SponsorblockMode exFeedRequire = ''require'' \<and>
   fetchSegments exEnv exFeedRequire (exEpisode ''a'' 100 EpisodeNew) = [] \<and>
   processEpisode exEnv exFeedRequire exWorldBlob (exEpisode ''a'' 100 EpisodeNew) =
     Continue (exWorldBlob\<lparr> db :=
       [(exEpisode ''a'' 100 EpisodeDownloaded)\<lparr> Size := 777 \<rparr>,
        exEpisode ''b'' 200 EpisodeDownloaded, exEpisode ''c'' 300 EpisodeError,
        exEpisode ''e'' 400 EpisodeCleaned] \<rparr>)"
  using existing_blob_marks_downloaded [OF exWorldBlob_hyps]
  by (simp add: exFeedRequire_def exFeed_def fetchSegments_def exEnv_def exWorldBlob_def
      exStore_def exEpisode_def markDownloaded_def)

lemma exWorld_hyps:
  "fs exWorld (EpisodeName exEnv exFeedRequire (exEpisode ''a'' 100 EpisodeNew)) = None"
  "\<not> fsFault exEnv (OpSize (EpisodeName exEnv exFeedRequire (exEpisode ''a'' 100 EpisodeNew)))"
  "fs exWorld (EpisodeName exEnv exFeed (exEpisode ''a'' 100 EpisodeNew)) = None"
  "\<not> fsFault exEnv (OpSize (EpisodeName exEnv exFeed (exEpisode ''a'' 100 EpisodeNew)))"
  by (simp_all add: exWorld_def exEnv_def)

lemma exRecent_hyps:
  "fs exWorldRecent (EpisodeName exEnv exFeedRequireDelay exRecent) = None"
  "\<not> fsFault exEnv (OpSize (EpisodeName exEnv exFeedRequireDelay exRecent))"
  "fs exWorldRecent (EpisodeName exEnv exFeedRequireDelayShort exRecent) = None"
  "\<not> fsFault exEnv (OpSize (EpisodeName exEnv exFeedRequireDelayShort exRecent))"
  by (simp_all add: exWorldRecent_def exEnv_def)

theorem deferral_iff_witness:
  "processEpisode exEnv exFeedRequire exWorld (exEpisode ''a'' 100 EpisodeNew) = Continue exWorld \<and>
   (\<exists>more. calls (stepWorld (processEpisode exEnv exFeed exWorld (exEpisode ''a'' 100 EpisodeNew))) =
      calls exWorld @ CallDownload ''a'' # more) \<and>
   now exEnv - PubDate exRecent = 5000 \<and>
   SponsorblockDelay exFeedRequireDelay = 10000 \<and>
   \<not> delayPassed exEnv exFeedRequireDelay exRecent \<and>
   processEpisode exEnv exFeedRequireDelay exWorldRecent exRecent = Continue exWorldRecent \<and>
   SponsorblockDelay exFeedRequireDelayShort = 1000 \<and>
   delayPassed exEnv exFeedRequireDelayShort exRecent \<and>
   (\<exists>more. calls (stepWorld (processEpisode exEnv exFeedRequireDelayShort exWorldRecent exRecent)) =
      calls exWorldRecent @ CallDownload ''r'' # more)"
  using deferral_iff [OF exWorld_hyps(1,2)] deferral_iff [OF exWorld_hyps(3,4)]
    deferral_iff [OF exRecent_hyps(1,2)] deferral_iff [OF exRecent_hyps(3,4)]
  by (simp add: exFeedRequire_def exFeedRequireDelay_def exFeedRequireDelayShort_def exFeed_def
      fetchSegments_def exEnv_def exEpisode_def exRecent_def)

section \<open>Download scheduler: the batch\<close>

lemmas ex_defs = exEnv_def exFeed_def exEpisode_def exRegexp_def

lemma sint_dec:
  fixes q :: "64 word"
  assumes "- (2 ^ 63) < sint q"
  shows "sint (q - 1) = sint q - 1"
proof -
  have "sint q < 2 ^ 63" using sint_lt[of q] by simp
  with assms have "signed_take_bit 63 (sint q - 1) = sint q - 1"
    by (intro signed_take_bit_int_eq_self) auto
  then show ?thesis by (simp add: sint_word_diff)
qed

lemma enqueue_eligible:
  assumes "(Status e = EpisodeNew \<or> Status e = EpisodeError) \<and> matchFilters env e (Filters c)"
  shows "enqueue env c (q, acc) e = (q - 1, if sint (q - 1) \<le> 0 then acc else acc @ [e])"
  using assms by (cases "Status e") (auto simp: enqueue_def)

lemma enqueue_other:
  assumes "\<not> ((Status e = EpisodeNew \<or> Status e = EpisodeError) \<and> matchFilters env e (Filters c))"
  shows "enqueue env c (q, acc) e = (q, acc)"
  using assms by (cases "Status e") (auto simp: enqueue_def)

lemma fst_foldl_enqueue:
  "fst (foldl (enqueue env c) (q, acc) eps) = q - of_nat (length (eligible env c eps))"
proof (induction eps arbitrary: q acc)
  case Nil
  then show ?case by (simp add: eligible_def)
next
  case (Cons e eps)
  show ?case
  proof (cases "(Status e = EpisodeNew \<or> Status e = EpisodeError) \<and> matchFilters env e (Filters c)")
    case True
    then have el: "eligible env c (e # eps) = e # eligible env c eps" by (simp add: eligible_def)
    show ?thesis
      unfolding foldl_Cons enqueue_eligible[OF True] el Cons.IH by simp
  next
    case False
    then have el: "eligible env c (e # eps) = eligible env c eps" by (auto simp: eligible_def)
    show ?thesis
      unfolding foldl_Cons enqueue_other[OF False] el Cons.IH by simp
  qed
qed

lemma snd_foldl_enqueue:
  "- (2 ^ 63) + int (length (eligible env c eps)) \<le> sint q \<Longrightarrow>
   snd (foldl (enqueue env c) (q, acc) eps) = acc @ take (nat (sint q - 1)) (eligible env c eps)"
proof (induction eps arbitrary: q acc)
  case Nil
  then show ?case by (simp add: eligible_def)
next
  case (Cons e eps)
  show ?case
  proof (cases "(Status e = EpisodeNew \<or> Status e = EpisodeError) \<and> matchFilters env e (Filters c)")
    case True
    then have el: "eligible env c (e # eps) = e # eligible env c eps" by (simp add: eligible_def)
    with Cons.prems have rng: "- (2 ^ 63) < sint q"
      "- (2 ^ 63) + int (length (eligible env c eps)) \<le> sint q - 1" by auto
    note dec = sint_dec[OF rng(1)]
    from rng(2) have ih: "snd (foldl (enqueue env c) (q - 1, acc') eps) =
        acc' @ take (nat (sint (q - 1) - 1)) (eligible env c eps)" for acc'
      by (intro Cons.IH) (simp add: dec)
    show ?thesis
    proof (cases "sint (q - 1) \<le> 0")
      case True
      then show ?thesis
        unfolding foldl_Cons enqueue_eligible[OF \<open>(Status e = EpisodeNew \<or> Status e = EpisodeError) \<and> matchFilters env e (Filters c)\<close>] el
        using ih[of acc] dec by simp
    next
      case False
      then have "nat (sint q - 1) = Suc (nat (sint (q - 1) - 1))" using dec by simp
      with False show ?thesis
        unfolding foldl_Cons enqueue_eligible[OF \<open>(Status e = EpisodeNew \<or> Status e = EpisodeError) \<and> matchFilters env e (Filters c)\<close>] el
        using ih[of "acc @ [e]"] by simp
    qed
  next
    case False
    then have el: "eligible env c (e # eps) = eligible env c eps" by (auto simp: eligible_def)
    with Cons.prems Cons.IH[of q acc] show ?thesis
      unfolding foldl_Cons enqueue_other[OF False] by simp
  qed
qed

lemma dbUpdateEpisode_shape:
  "dbUpdateEpisode env d i f = Inr d' \<Longrightarrow> d' = map (\<lambda>e. if ID e = i then f e else e) d"
  by (auto simp: dbUpdateEpisode_def split: if_splits)

lemma db_copyFile:
  "copyFile env w name t = Inl (err, w') \<Longrightarrow> db w' = db w \<and> fs w' = fs w"
  "copyFile env w name t = Inr (n, w') \<Longrightarrow> db w' = db w"
  by (auto simp: copyFile_def split: sum.splits prod.splits)

lemma trimFile_frame:
  "case trimFile env c w ep name t segs of
     Inl (err, w') \<Rightarrow> db w' = db w \<and> fs w' = fs w
   | Inr (n, w') \<Rightarrow> db w' = db w"
proof (cases "planKeeps (SponsorBlockCategories c) segs")
  case (Inl e)
  then show ?thesis by (simp add: trimFile_def)
next
  case (Inr keeps)
  show ?thesis
  proof (cases "TempDir env")
    case None
    with Inr show ?thesis by (simp add: trimFile_def)
  next
    case (Some tmpDir)
    let ?args = "ffmpegArgs (Format c) (Fullpath t) (buildFilter env (Format c) keeps)
                   (processedPath env tmpDir ep (Format c))"
    show ?thesis
    proof (cases "ffmpeg env ?args")
      case StartFailed
      with Inr Some show ?thesis by (simp add: trimFile_def Let_def)
    next
      case WaitFailed
      with Inr Some show ?thesis by (simp add: trimFile_def Let_def)
    next
      case (Exited out)
      show ?thesis
      proof (cases out)
        case None
        with Inr Some Exited show ?thesis by (simp add: trimFile_def Let_def)
      next
        case (Some n)
        with Inr \<open>TempDir env = Some tmpDir\<close> Exited show ?thesis
          by (simp add: trimFile_def Let_def fsCreate_def)
      qed
    qed
  qed
qed

lemma db_trimFile:
  "trimFile env c w ep name t segs = Inl (err, w') \<Longrightarrow> db w' = db w \<and> fs w' = fs w"
  "trimFile env c w ep name t segs = Inr (n, w') \<Longrightarrow> db w' = db w"
  using trimFile_frame[where env=env and c=c and w=w and ep=ep and name=name and t=t and segs=segs]
  by simp_all

lemma db_storeMedia:
  "storeMedia env c w ep name t segs = Inl (err, w') \<Longrightarrow> db w' = db w \<and> fs w' = fs w"
  "storeMedia env c w ep name t segs = Inr (n, w') \<Longrightarrow> db w' = db w"
proof -
  assume a: "storeMedia env c w ep name t segs = Inl (err, w')"
  show "db w' = db w \<and> fs w' = fs w"
  proof (cases "length segs = 0")
    case True
    with a have "copyFile env w name t = Inl (err, w')" by (simp add: storeMedia_def)
    then show ?thesis by (rule db_copyFile(1))
  next
    case False
    with a have "trimFile env c w ep name t segs = Inl (err, w')" by (simp add: storeMedia_def)
    then show ?thesis by (rule db_trimFile(1))
  qed
next
  assume a: "storeMedia env c w ep name t segs = Inr (n, w')"
  show "db w' = db w"
  proof (cases "length segs = 0")
    case True
    with a have "copyFile env w name t = Inr (n, w')" by (simp add: storeMedia_def)
    then show ?thesis by (rule db_copyFile(2))
  next
    case False
    with a have "trimFile env c w ep name t segs = Inr (n, w')" by (simp add: storeMedia_def)
    then show ?thesis by (rule db_trimFile(2))
  qed
qed

lemma downloadAndStore_db:
  "db (stepWorld (downloadAndStore env c w ep name segs)) = db w \<or>
   (\<exists>f. db (stepWorld (downloadAndStore env c w ep name segs)) =
          map (\<lambda>e. if ID e = ID ep then f e else e) (db w))"
proof (cases "Download env c ep")
  case TooManyRequests
  then show ?thesis by (simp add: downloadAndStore_def)
next
  case DownloadFailed
  show ?thesis
  proof (cases "dbUpdateEpisode env (db w) (ID ep) markError")
    case (Inl a)
    with DownloadFailed show ?thesis by (simp add: downloadAndStore_def Let_def)
  next
    case (Inr d)
    from dbUpdateEpisode_shape[OF Inr] Inr DownloadFailed show ?thesis
      by (auto simp: downloadAndStore_def Let_def)
  qed
next
  case (DownloadOk tempFile)
  let ?w1 = "w\<lparr> calls := calls w @ [CallDownload (ID ep)] \<rparr>"
  note pe = downloadAndStore_Ok[OF DownloadOk, of w name segs]
  show ?thesis
  proof (cases "storeMedia env c ?w1 ep name tempFile segs")
    case (Inl a)
    obtain err w2 where a: "a = (err, w2)" by (cases a)
    from db_storeMedia(1)[OF Inl[unfolded a]] show ?thesis unfolding pe Inl a by simp
  next
    case (Inr b)
    obtain n w2 where b: "b = (n, w2)" by (cases b)
    from db_storeMedia(2)[OF Inr[unfolded b]] have dbw2: "db w2 = db w" by simp
    show ?thesis
    proof (cases "dbUpdateEpisode env (db w2) (ID ep) (markDownloaded n)")
      case (Inl e)
      with dbw2 show ?thesis
        unfolding pe \<open>storeMedia env c ?w1 ep name tempFile segs = Inr b\<close> b by simp
    next
      case (Inr d)
      from dbUpdateEpisode_shape[OF Inr] Inr dbw2 show ?thesis
        unfolding pe \<open>storeMedia env c ?w1 ep name tempFile segs = Inr b\<close> b by auto
    qed
  qed
qed

lemma processEpisode_db:
  "db (stepWorld (processEpisode env c w ep)) = db w \<or>
   (\<exists>f. db (stepWorld (processEpisode env c w ep)) =
          map (\<lambda>e. if ID e = ID ep then f e else e) (db w))"
proof (cases "fsSize env (fs w) (EpisodeName env c ep)")
  case (Inr n)
  show ?thesis
  proof (cases "dbUpdateEpisode env (db w) (ID ep) (markDownloaded n)")
    case (Inl a)
    with Inr show ?thesis by (simp add: processEpisode_def)
  next
    case d: (Inr d)
    from dbUpdateEpisode_shape[OF d] d Inr show ?thesis
      by (auto simp: processEpisode_def)
  qed
next
  case (Inl err)
  show ?thesis
  proof (cases "err = NotExist")
    case True
    with Inl show ?thesis
      using downloadAndStore_db[of env c w ep "EpisodeName env c ep" "fetchSegments env c ep"]
      by (simp add: processEpisode_missing)
  next
    case False
    with Inl show ?thesis by (simp add: processEpisode_def)
  qed
qed

lemma processEpisode_keeps_others:
  assumes "e \<in> set (db w)" "ID e \<noteq> ID ep"
  shows "e \<in> set (db (stepWorld (processEpisode env c w ep)))"
proof -
  have m: "e \<in> set (map (\<lambda>e. if ID e = ID ep then f e else e) (db w))" for f
  proof -
    from assms(2) have "e = (\<lambda>e. if ID e = ID ep then f e else e) e" by simp
    then show ?thesis unfolding set_map using assms(1) by (rule image_eqI)
  qed
  from processEpisode_db[of env c w ep] show ?thesis
  proof
    assume "db (stepWorld (processEpisode env c w ep)) = db w"
    with assms(1) show ?thesis by simp
  next
    assume "\<exists>f. db (stepWorld (processEpisode env c w ep)) =
          map (\<lambda>e. if ID e = ID ep then f e else e) (db w)"
    then obtain f where "db (stepWorld (processEpisode env c w ep)) =
          map (\<lambda>e. if ID e = ID ep then f e else e) (db w)" ..
    with m[of f] show ?thesis by simp
  qed
qed

lemma downloadLoop_keeps_others:
  "e \<in> set (db w) \<Longrightarrow> ID e \<notin> ID ` set eps \<Longrightarrow> e \<in> set (db (snd (downloadLoop env c w eps)))"
proof (induction eps arbitrary: w)
  case Nil
  then show ?case by simp
next
  case (Cons ep eps)
  from Cons.prems have ne: "ID e \<noteq> ID ep" "ID e \<notin> ID ` set eps" by auto
  from processEpisode_keeps_others[OF Cons.prems(1) ne(1), of env c]
  have k: "e \<in> set (db (stepWorld (processEpisode env c w ep)))" .
  show ?case
  proof (cases "processEpisode env c w ep")
    case (Continue w')
    with k Cons.IH[of w'] ne show ?thesis by simp
  next
    case (Break w')
    with k show ?thesis by simp
  next
    case (Return err w')
    with k show ?thesis by simp
  qed
qed

text \<open>
  Claim C3, as the code has it. The page-size budget is decremented once for every stored
  episode that is \<open>New\<close> or \<open>Error\<close> and passes the filters, and for no other episode; the
  scan visits the whole store. For a non-negative budget and fewer than \<open>2^63\<close> such episodes,
  the queue is an initial segment of them in store order, no longer than the budget. An episode
  that is not queued is left in the store as it is by the run.
\<close>

theorem buildDownloadList_prefix:
  "fst (foldl (enqueue env feedConfig) (PageSize feedConfig, []) eps) =
     PageSize feedConfig - of_nat (length (eligible env feedConfig eps)) \<and>
   (0 \<le> sint (PageSize feedConfig) \<and> length (eligible env feedConfig eps) < 2 ^ 63 \<longrightarrow>
      (\<exists>n \<le> nat (sint (PageSize feedConfig)).
         buildDownloadList env feedConfig eps = take n (eligible env feedConfig eps))) \<and>
   (\<forall>e \<in> set (db w). ID e \<notin> ID ` set (buildDownloadList env feedConfig (db w)) \<longrightarrow>
      e \<in> set (db (snd (downloadEpisodes env feedConfig w))))"
proof (intro conjI impI ballI)
  show "fst (foldl (enqueue env feedConfig) (PageSize feedConfig, []) eps) =
     PageSize feedConfig - of_nat (length (eligible env feedConfig eps))"
    by (rule fst_foldl_enqueue)
next
  assume a: "0 \<le> sint (PageSize feedConfig) \<and> length (eligible env feedConfig eps) < 2 ^ 63"
  then have "- (2 ^ 63) + int (length (eligible env feedConfig eps)) \<le> sint (PageSize feedConfig)"
    by simp
  from snd_foldl_enqueue[OF this, of "[]"]
  have "buildDownloadList env feedConfig eps =
      take (nat (sint (PageSize feedConfig) - 1)) (eligible env feedConfig eps)"
    by (simp add: buildDownloadList_def)
  moreover have "nat (sint (PageSize feedConfig) - 1) \<le> nat (sint (PageSize feedConfig))" by simp
  ultimately show "\<exists>n \<le> nat (sint (PageSize feedConfig)).
         buildDownloadList env feedConfig eps = take n (eligible env feedConfig eps)" by blast
next
  fix e assume e: "e \<in> set (db w)"
    and n: "ID e \<notin> ID ` set (buildDownloadList env feedConfig (db w))"
  show "e \<in> set (db (snd (downloadEpisodes env feedConfig w)))"
  proof (cases "dbFault env OpWalkEpisodes")
    case True
    with e show ?thesis by (simp add: downloadEpisodes_def dbWalkEpisodes_def)
  next
    case False
    with e downloadLoop_keeps_others[OF e n, of env feedConfig] show ?thesis
      by (simp add: downloadEpisodes_def dbWalkEpisodes_def Let_def)
  qed
qed

theorem buildDownloadList_prefix_witness:
  "0 \<le> sint (PageSize exFeed) \<and> length (eligible exEnv exFeed exFive) < 2 ^ 63 \<and>
   (\<exists>n \<le> 3. buildDownloadList exEnv exFeed exFive = take n (eligible exEnv exFeed exFive)) \<and>
   exEpisode ''e5'' 500 EpisodeNew \<in> set (db (snd (downloadEpisodes exEnv exFeed exWorldFive)))"
  using buildDownloadList_prefix [of exEnv exFeed exFive exWorldFive]
  by (simp add: buildDownloadList_def enqueue_def exFive_def exWorldFive_def eligible_def
      matchFilters_def matchRegexpFilter_def MatchString_def ex_defs)

text \<open>
  With a budget of 3 and five episodes that are \<open>New\<close> and pass the filters, two are queued,
  not three. With a title filter that the first three of five \<open>New\<close> episodes fail, the budget
  goes from 3 to 1, not below, and the two matching episodes are queued.
\<close>

theorem buildDownloadList_counterexample:
  "PageSize exFeed = 3 \<and> length (eligible exEnv exFeed exFive) = 5 \<and>
   map ID (buildDownloadList exEnv exFeed exFive) = [''e1'', ''e2''] \<and>
   length (buildDownloadList exEnv exFeed exFive) \<noteq> 3 \<and>
   fst (foldl (enqueue exEnv exFeedTitle) (PageSize exFeedTitle, []) exMixed) = 1 \<and>
   map ID (buildDownloadList exEnv exFeedTitle exMixed) = [''m1'', ''m2'']"
  by (simp add: buildDownloadList_def enqueue_def eligible_def exFive_def exMixed_def
      exFeedTitle_def
      matchFilters_def matchRegexpFilter_def MatchString_def ex_defs)

text \<open>
  Claim C4, as the code has it. For a candidate whose blob does not exist and which is not
  deferred: when the downloader reports the rate limit, the loop ends at once without error and
  nothing but the record of the call changes, so the stored state of the candidate and of every
  later one is as before; when the download fails otherwise, the status of the episode is set
  to \<open>Error\<close> and the loop goes on with the next candidate; when the transcoder fails to
  start or to finish, the run ends with the error \<^verbatim>\<open>Error running ffmpeg\<close>: the store and
  the file storage are as before, and the only calls made are the download of this candidate
  and the transcoder run, so no later candidate is tried.
\<close>

theorem downloadLoop_failure_modes:
  assumes blob: "fs w (EpisodeName env feedConfig ep) = None"
    and stat: "\<not> fsFault env (OpSize (EpisodeName env feedConfig ep))"
    and go: "\<not> deferred env feedConfig ep"
  shows
   "(Download env feedConfig ep = TooManyRequests \<longrightarrow>
       downloadLoop env feedConfig w (ep # rest) =
         (None, w\<lparr> calls := calls w @ [CallDownload (ID ep)] \<rparr>)) \<and>
    (Download env feedConfig ep = DownloadFailed \<and> ID ep \<in> ID ` set (db w) \<and>
     \<not> dbFault env (OpUpdateEpisode (ID ep)) \<longrightarrow>
       downloadLoop env feedConfig w (ep # rest) =
         downloadLoop env feedConfig
           (w\<lparr> calls := calls w @ [CallDownload (ID ep)],
               db := map (\<lambda>e. if ID e = ID ep then e\<lparr> Status := EpisodeError \<rparr> else e) (db w) \<rparr>)
           rest \<and>
       (\<forall>e \<in> set (map (\<lambda>e. if ID e = ID ep then e\<lparr> Status := EpisodeError \<rparr> else e) (db w)).
          ID e = ID ep \<longrightarrow> Status e = EpisodeError)) \<and>
    (\<forall>tempFile keeps tmpDir.
       Download env feedConfig ep = DownloadOk tempFile \<and>
       fetchSegments env feedConfig ep \<noteq> [] \<and>
       planKeeps (SponsorBlockCategories feedConfig) (fetchSegments env feedConfig ep) = Inr keeps \<and>
       TempDir env = Some tmpDir \<and>
       ffmpeg env (ffmpegArgs (Format feedConfig) (Fullpath tempFile)
                    (buildFilter env (Format feedConfig) keeps)
                    (processedPath env tmpDir ep (Format feedConfig))) \<in> {StartFailed, WaitFailed} \<longrightarrow>
       downloadLoop env feedConfig w (ep # rest) =
         (Some (Wrap ''Error running ffmpeg'' ExecError),
          w\<lparr> calls := calls w @
               [CallDownload (ID ep),
                CallFfmpeg (ffmpegArgs (Format feedConfig) (Fullpath tempFile)
                              (buildFilter env (Format feedConfig) keeps)
                              (processedPath env tmpDir ep (Format feedConfig)))] \<rparr>))"
proof -
  let ?w1 = "w\<lparr> calls := calls w @ [CallDownload (ID ep)] \<rparr>"
  let ?name = "EpisodeName env feedConfig ep"
  let ?segs = "fetchSegments env feedConfig ep"
  let ?err = "\<lambda>e. if ID e = ID ep then e\<lparr> Status := EpisodeError \<rparr> else e"
  have pe: "processEpisode env feedConfig w ep = downloadAndStore env feedConfig w ep ?name ?segs"
    using processEpisode_missing[OF fsSize_missing[OF blob stat]] go by simp
  have one: "downloadLoop env feedConfig w (ep # rest) = (None, ?w1)"
    if "Download env feedConfig ep = TooManyRequests"
    using that by (simp add: pe downloadAndStore_def)
  have two: "downloadLoop env feedConfig w (ep # rest) =
         downloadLoop env feedConfig
           (w\<lparr> calls := calls w @ [CallDownload (ID ep)], db := map ?err (db w) \<rparr>) rest"
    if "Download env feedConfig ep = DownloadFailed" "ID ep \<in> ID ` set (db w)"
       "\<not> dbFault env (OpUpdateEpisode (ID ep))"
  proof -
    have "(\<lambda>e. if ID e = ID ep then markError e else e) = ?err"
      by (simp add: markError_def fun_eq_iff)
    with that dbUpdateEpisode_known[OF that(2,3), of markError] show ?thesis
      by (simp add: pe downloadAndStore_def Let_def)
  qed
  have marked: "\<forall>e \<in> set (map ?err (db w)). ID e = ID ep \<longrightarrow> Status e = EpisodeError"
    by auto
  have three: "downloadLoop env feedConfig w (ep # rest) =
         (Some (Wrap ''Error running ffmpeg'' ExecError),
          w\<lparr> calls := calls w @
               [CallDownload (ID ep),
                CallFfmpeg (ffmpegArgs (Format feedConfig) (Fullpath tempFile)
                              (buildFilter env (Format feedConfig) keeps)
                              (processedPath env tmpDir ep (Format feedConfig)))] \<rparr>)"
    if h: "Download env feedConfig ep = DownloadOk tempFile" "?segs \<noteq> []"
       "planKeeps (SponsorBlockCategories feedConfig) ?segs = Inr keeps"
       "TempDir env = Some tmpDir"
       "ffmpeg env (ffmpegArgs (Format feedConfig) (Fullpath tempFile)
                    (buildFilter env (Format feedConfig) keeps)
                    (processedPath env tmpDir ep (Format feedConfig))) \<in> {StartFailed, WaitFailed}"
    for tempFile keeps tmpDir
  proof -
    let ?args = "ffmpegArgs (Format feedConfig) (Fullpath tempFile)
                    (buildFilter env (Format feedConfig) keeps)
                    (processedPath env tmpDir ep (Format feedConfig))"
    let ?w2 = "?w1\<lparr> calls := calls ?w1 @ [CallFfmpeg ?args] \<rparr>"
    from h(3,4,5) have "trimFile env feedConfig ?w1 ep ?name tempFile ?segs =
        Inl (Wrap ''Error running ffmpeg'' ExecError, ?w2)"
      by (auto simp: trimFile_def Let_def)
    with h(2) have "storeMedia env feedConfig ?w1 ep ?name tempFile ?segs =
        Inl (Wrap ''Error running ffmpeg'' ExecError, ?w2)"
      by (simp add: storeMedia_def)
    then have "downloadLoop env feedConfig w (ep # rest) =
        (Some (Wrap ''Error running ffmpeg'' ExecError), ?w2)"
      by (simp add: pe downloadAndStore_Ok[OF h(1)])
    then show ?thesis by simp
  qed
  show ?thesis
  proof (intro conjI impI allI)
    assume "Download env feedConfig ep = TooManyRequests"
    then show "downloadLoop env feedConfig w (ep # rest) = (None, ?w1)" by (rule one)
  next
    assume "Download env feedConfig ep = DownloadFailed \<and> ID ep \<in> ID ` set (db w) \<and>
     \<not> dbFault env (OpUpdateEpisode (ID ep))"
    then show "downloadLoop env feedConfig w (ep # rest) =
         downloadLoop env feedConfig
           (w\<lparr> calls := calls w @ [CallDownload (ID ep)], db := map ?err (db w) \<rparr>) rest"
      using two by simp
  next
    show "\<forall>e \<in> set (map ?err (db w)). ID e = ID ep \<longrightarrow> Status e = EpisodeError"
      by (rule marked)
  next
    fix tempFile keeps tmpDir
    assume "Download env feedConfig ep = DownloadOk tempFile \<and>
       fetchSegments env feedConfig ep \<noteq> [] \<and>
       planKeeps (SponsorBlockCategories feedConfig) (fetchSegments env feedConfig ep) = Inr keeps \<and>
       TempDir env = Some tmpDir \<and>
       ffmpeg env (ffmpegArgs (Format feedConfig) (Fullpath tempFile)
                    (buildFilter env (Format feedConfig) keeps)
                    (processedPath env tmpDir ep (Format feedConfig))) \<in> {StartFailed, WaitFailed}"
    then show "downloadLoop env feedConfig w (ep # rest) =
         (Some (Wrap ''Error running ffmpeg'' ExecError),
          w\<lparr> calls := calls w @
               [CallDownload (ID ep),
                CallFfmpeg (ffmpegArgs (Format feedConfig) (Fullpath tempFile)
                              (buildFilter env (Format feedConfig) keeps)
                              (processedPath env tmpDir ep (Format feedConfig)))] \<rparr>)"
      using three[of tempFile keeps tmpDir] by (elim conjE) simp
  qed
qed

lemma exFail_hyps1:
  "fs exWorldFive (EpisodeName exEnvFail exFeed (exEpisode ''e1'' 100 EpisodeNew)) = None"
  "\<not> fsFault exEnvFail (OpSize (EpisodeName exEnvFail exFeed (exEpisode ''e1'' 100 EpisodeNew)))"
  "\<not> deferred exEnvFail exFeed (exEpisode ''e1'' 100 EpisodeNew)"
  by (simp_all add: exWorldFive_def exEnvFail_def deferred_def ex_defs)

lemma exFail_hyps2:
  "fs exWorldFiveErr (EpisodeName exEnvFail exFeed (exEpisode ''e2'' 200 EpisodeNew)) = None"
  "\<not> fsFault exEnvFail (OpSize (EpisodeName exEnvFail exFeed (exEpisode ''e2'' 200 EpisodeNew)))"
  "\<not> deferred exEnvFail exFeed (exEpisode ''e2'' 200 EpisodeNew)"
  by (simp_all add: exWorldFiveErr_def exEnvFail_def deferred_def ex_defs)

lemma exFail_marked:
  "exWorldFive\<lparr> calls := calls exWorldFive @ [CallDownload (ID (exEpisode ''e1'' 100 EpisodeNew))],
      db := map (\<lambda>e. if ID e = ID (exEpisode ''e1'' 100 EpisodeNew)
                      then e\<lparr> Status := EpisodeError \<rparr> else e) (db exWorldFive) \<rparr> =
   exWorldFiveErr"
  by (simp add: exWorldFive_def exWorldFiveErr_def exFive_def exEpisode_def)

theorem downloadLoop_failure_modes_witness:
  "downloadLoop exEnvFail exFeed exWorldFive exFive =
     (None, exWorldFiveErr\<lparr> calls := [CallDownload ''e1'', CallDownload ''e2''] \<rparr>) \<and>
   map Status (db exWorldFiveErr) =
     [EpisodeError, EpisodeNew, EpisodeNew, EpisodeNew, EpisodeNew]"
proof -
  let ?e1 = "exEpisode ''e1'' 100 EpisodeNew" and ?e2 = "exEpisode ''e2'' 200 EpisodeNew"
  let ?rest = "[exEpisode ''e3'' 300 EpisodeNew, exEpisode ''e4'' 400 EpisodeNew,
                exEpisode ''e5'' 500 EpisodeNew]"
  have p1: "Download exEnvFail exFeed ?e1 = DownloadFailed \<and> ID ?e1 \<in> ID ` set (db exWorldFive) \<and>
      \<not> dbFault exEnvFail (OpUpdateEpisode (ID ?e1))"
    by (simp add: exEnvFail_def exEnv_def exWorldFive_def exFive_def exEpisode_def)
  have p2: "Download exEnvFail exFeed ?e2 = TooManyRequests"
    by (simp add: exEnvFail_def exEpisode_def)
  from downloadLoop_failure_modes [OF exFail_hyps1, of "?e2 # ?rest"] p1
  have "downloadLoop exEnvFail exFeed exWorldFive (?e1 # ?e2 # ?rest) =
      downloadLoop exEnvFail exFeed exWorldFiveErr (?e2 # ?rest)"
    unfolding exFail_marked by blast
  also from downloadLoop_failure_modes [OF exFail_hyps2, of ?rest] p2
  have "downloadLoop exEnvFail exFeed exWorldFiveErr (?e2 # ?rest) =
      (None, exWorldFiveErr\<lparr> calls := calls exWorldFiveErr @ [CallDownload (ID ?e2)] \<rparr>)"
    by blast
  finally have "downloadLoop exEnvFail exFeed exWorldFive exFive =
      (None, exWorldFiveErr\<lparr> calls := calls exWorldFiveErr @ [CallDownload (ID ?e2)] \<rparr>)"
    by (simp only: exFive_def)
  then show ?thesis
    by (simp add: exWorldFiveErr_def exEpisode_def)
qed

text \<open>
  A transcoder failure on the first of two candidates: the run fails, the episode is not marked
  \<open>Error\<close>, and the second candidate is never tried.
\<close>

lemma exTrim_list:
  "buildDownloadList exEnvTrim exFeedDelay exStore =
     [exEpisode ''a'' 100 EpisodeNew, exEpisode ''c'' 300 EpisodeError]"
  by (simp add: buildDownloadList_def enqueue_def exStore_def exFeedDelay_def exEnvTrim_def
      matchFilters_def matchRegexpFilter_def MatchString_def ex_defs)

lemma exTrim_step:
  "processEpisode exEnvTrim exFeedDelay exWorld (exEpisode ''a'' 100 EpisodeNew) =
     Return (Wrap ''Error running ffmpeg'' ExecError)
       (exWorld\<lparr> calls := [CallDownload ''a'',
          CallFfmpeg (ffmpegArgs ''video'' ''/tmp/dl/a''
            (buildFilter exEnvTrim ''video'' [(0, 10), (20, - 1)])
            ''/tmp/podsync-ffmpeg-1/processed-a.mp4'')] \<rparr>)"
  by (simp add: processEpisode_def fsSize_def fetchSegments_def downloadAndStore_def
      storeMedia_def trimFile_def planKeeps_def kept_def processedPath_def ext_def FormatAudio_def
      exSegment_def exWorld_def exFeedDelay_def exEnvTrim_def Let_def ex_defs)

theorem transcoder_failure_counterexample:
  "fst (downloadEpisodes exEnvTrim exFeedDelay exWorld) =
     Some (Wrap ''Error running ffmpeg'' ExecError) \<and>
   db (snd (downloadEpisodes exEnvTrim exFeedDelay exWorld)) = exStore \<and>
   Status (exEpisode ''a'' 100 EpisodeNew) \<noteq> EpisodeError \<and>
   CallDownload ''c'' \<notin> set (calls (snd (downloadEpisodes exEnvTrim exFeedDelay exWorld)))"
proof -
  have "\<not> dbFault exEnvTrim OpWalkEpisodes" by (simp add: exEnvTrim_def exEnv_def)
  then have "downloadEpisodes exEnvTrim exFeedDelay exWorld =
      downloadLoop exEnvTrim exFeedDelay exWorld
        [exEpisode ''a'' 100 EpisodeNew, exEpisode ''c'' 300 EpisodeError]"
    using exTrim_list by (simp add: downloadEpisodes_def dbWalkEpisodes_def exWorld_def)
  then show ?thesis
    by (simp add: exTrim_step) (simp add: exWorld_def exEpisode_def)
qed

section \<open>Segment planner: properties\<close>


lemma ascending_bounds:
  "Segment s = a # b # rest \<Longrightarrow> segStart s = a \<and> segEnd s = b"
  by (simp add: segStart_def segEnd_def)










section \<open>Filter-graph builder: properties\<close>

lemma stages_spec_Nil: "stages_spec env format i [] = []"
  by (simp add: stages_spec_def)

lemma stages_spec_Cons:
  "stages_spec env format i (k # ks) =
     audioStage env i k # (if format \<noteq> FormatAudio then [videoStage env i k] else []) @
     stages_spec env format (Suc i) ks"
  by (simp add: stages_spec_def)

lemma labels_spec_0: "labels_spec format i 0 = []"
  by (simp add: labels_spec_def)

lemma labels_spec_Suc:
  "labels_spec format i (Suc n) =
     (if format \<noteq> FormatAudio then [''[s'' @ showNat i @ ''v]''] else []) @
     [''[s'' @ showNat i @ ''a]''] @ labels_spec format (Suc i) n"
proof -
  have "[i ..< i + Suc n] = i # [Suc i ..< Suc i + n]"
    by (simp add: upt_conv_Cons)
  then show ?thesis unfolding labels_spec_def by simp
qed

lemma filterLoop_spec:
  "filterLoop env format i keeps (f, g) =
     (f @ concat (stages_spec env format i keeps),
      g @ concat (labels_spec format i (length keeps)))"
proof (induction keeps arbitrary: i f g)
  case Nil
  then show ?case by (simp add: stages_spec_Nil labels_spec_0)
next
  case (Cons k ks)
  obtain start stop where k: "k = (start, stop)" by (cases k)
  show ?case
    unfolding k filterLoop.simps Let_def Cons.IH stages_spec_Cons labels_spec_Suc length_Cons
    by (simp add: audioStage_def videoStage_def trimBounds_def)
qed

lemma length_stages_spec:
  "length (stages_spec env format i keeps) =
     (if format = FormatAudio then length keeps else 2 * length keeps)"
  by (induction keeps arbitrary: i) (simp_all add: stages_spec_Nil stages_spec_Cons)

lemma length_labels_spec:
  "length (labels_spec format i n) = (if format = FormatAudio then n else 2 * n)"
  by (induction n arbitrary: i) (simp_all add: labels_spec_0 labels_spec_Suc)

lemma showNat_digits: "showNat 0 = ''0''" "showNat 1 = ''1''" "showNat (Suc 0) = ''1''"
  by (simp_all add: showNat.simps)

text \<open>
  Claim C6. The rendered filter graph of \<open>k\<close> keep intervals is, in this order: for every
  interval an audio-trim stage labelled \<open>s{i}a\<close> and, unless the format is audio-only, a
  video-trim stage labelled \<open>s{i}v\<close>; the labels of all intervals in interval order; and the
  concatenation stage with the final labels \<open>[outv]\<close> (with video only) and \<open>[outa]\<close>.
  There are \<open>k\<close> stages for audio-only feeds and \<open>2k\<close> otherwise. A stage trims from the
  start to the end, resets the timestamp base, and leaves the end out when it is \<open>-1\<close>. The
  output of the invocation is the temporary directory joined with the file name
  \<open>processed-{ID}.mp3\<close> for audio-only feeds and \<open>processed-{ID}.mp4\<close> otherwise.
\<close>

theorem buildFilter_stages:
  "buildFilter env format keeps =
     concat (stages_spec env format 0 keeps) @
     concat (labels_spec format 0 (length keeps)) @
     ''concat=n='' @ showNat (length keeps) @ '':v='' @
     (if format = FormatAudio then ''0'' else ''1'') @ '':a=1'' @
     (if format = FormatAudio then [] else ''[outv]'') @ ''[outa]'' \<and>
   length (stages_spec env format 0 keeps) =
     (if format = FormatAudio then length keeps else 2 * length keeps) \<and>
   length (labels_spec format 0 (length keeps)) =
     (if format = FormatAudio then length keeps else 2 * length keeps) \<and>
   (\<forall>i start. audioStage env i (start, - 1) =
      ''[0:a]atrim=start='' @ fmtFloat env start @ '',asetpts=PTS-STARTPTS[s'' @ showNat i @ ''a];'') \<and>
   (\<forall>i start stop. 0 \<le> stop \<longrightarrow> audioStage env i (start, stop) =
      ''[0:a]atrim=start='' @ fmtFloat env start @ '':end='' @ fmtFloat env stop @
      '',asetpts=PTS-STARTPTS[s'' @ showNat i @ ''a];'') \<and>
   (\<forall>i start. videoStage env i (start, - 1) =
      ''[0:v]trim=start='' @ fmtFloat env start @ '',setpts=PTS-STARTPTS[s'' @ showNat i @ ''v];'') \<and>
   (\<forall>i start stop. 0 \<le> stop \<longrightarrow> videoStage env i (start, stop) =
      ''[0:v]trim=start='' @ fmtFloat env start @ '':end='' @ fmtFloat env stop @
      '',setpts=PTS-STARTPTS[s'' @ showNat i @ ''v];'') \<and>
   last (ffmpegArgs format input (buildFilter env format keeps)
           (processedPath env tmpDir ep format)) =
     filepathJoin env tmpDir
       (''processed-'' @ ID ep @ (if format = FormatAudio then ''.mp3'' else ''.mp4''))"
proof (intro conjI)
  show "buildFilter env format keeps =
     concat (stages_spec env format 0 keeps) @
     concat (labels_spec format 0 (length keeps)) @
     ''concat=n='' @ showNat (length keeps) @ '':v='' @
     (if format = FormatAudio then ''0'' else ''1'') @ '':a=1'' @
     (if format = FormatAudio then [] else ''[outv]'') @ ''[outa]''"
    by (simp add: buildFilter_def filterLoop_spec videoStreams_def showNat_digits)
qed (simp_all add: length_stages_spec length_labels_spec audioStage_def videoStage_def
      trimBounds_def ffmpegArgs_def processedPath_def ext_def)

theorem buildFilter_stages_witness:
  "buildFilter exEnv ''video'' [(0, 10), (20, - 1)] =
     ''[0:a]atrim=start=0.000000:end=10.000000,asetpts=PTS-STARTPTS[s0a];'' @
     ''[0:v]trim=start=0.000000:end=10.000000,setpts=PTS-STARTPTS[s0v];'' @
     ''[0:a]atrim=start=20.000000,asetpts=PTS-STARTPTS[s1a];'' @
     ''[0:v]trim=start=20.000000,setpts=PTS-STARTPTS[s1v];'' @
     ''[s0v][s0a][s1v][s1a]concat=n=2:v=1:a=1[outv][outa]'' \<and>
   buildFilter exEnv ''audio'' [(0, 10), (20, - 1)] =
     ''[0:a]atrim=start=0.000000:end=10.000000,asetpts=PTS-STARTPTS[s0a];'' @
     ''[0:a]atrim=start=20.000000,asetpts=PTS-STARTPTS[s1a];'' @
     ''[s0a][s1a]concat=n=2:v=0:a=1[outa]''"
  using buildFilter_stages [of exEnv "''video''" "[(0, 10), (20, - 1)]"]
    buildFilter_stages [of exEnv "''audio''" "[(0, 10), (20, - 1)]"]
  by (simp add: stages_spec_def labels_spec_def audioStage_def videoStage_def trimBounds_def
      FormatAudio_def exEnv_def exFmtFloat_def showNat.simps upt_conv_Cons)

section \<open>Retention cleaner: properties\<close>

lemma ID_markCleaned [simp]: "ID (markCleaned e) = ID e"
  by (simp add: markCleaned_def)

lemma markCleaned_idem [simp]: "markCleaned (markCleaned e) = markCleaned e"
  by (simp add: markCleaned_def)

lemma map_ID_cleanedDb [simp]: "map ID (cleanedDb env c xs d) = map ID d"
  by (simp add: cleanedDb_def comp_def if_distrib)

lemma cleanedFs_Nil [simp]: "cleanedFs env c [] f = f"
  by (simp add: cleanedFs_def)

lemma cleanedDb_Nil [simp]: "cleanedDb env c [] d = d"
  by (simp add: cleanedDb_def)

lemma cleanedFs_skip:
  "\<not> blobDeleted env c e \<Longrightarrow> cleanedFs env c (e # xs) f = cleanedFs env c xs f"
  by (auto simp: cleanedFs_def fun_eq_iff)

lemma cleanedFs_delete:
  "blobDeleted env c e \<Longrightarrow>
     cleanedFs env c (e # xs) f = cleanedFs env c xs (f(EpisodeName env c e := None))"
  by (auto simp: cleanedFs_def fun_eq_iff)

lemma cleanedDb_skip:
  "\<not> (blobDeleted env c e \<and> stateSet env e) \<Longrightarrow> cleanedDb env c (e # xs) d = cleanedDb env c xs d"
  by (auto simp: cleanedDb_def intro!: map_cong)

lemma cleanedDb_mark:
  "blobDeleted env c e \<Longrightarrow> stateSet env e \<Longrightarrow>
     cleanedDb env c (e # xs) d =
       cleanedDb env c xs (map (\<lambda>x. if ID x = ID e then markCleaned x else x) d)"
  by (auto simp: cleanedDb_def comp_def)

lemma cleanLoop_spec:
  "ID ` set xs \<subseteq> ID ` set (db w) \<Longrightarrow>
   cleanLoop env c xs (res, w) =
     (res @ concat (map (failure env c) xs),
      w\<lparr> fs := cleanedFs env c xs (fs w), db := cleanedDb env c xs (db w) \<rparr>)"
proof (induction xs arbitrary: res w)
  case Nil
  then show ?case by simp
next
  case (Cons e xs)
  from Cons.prems have known: "ID e \<in> ID ` set (db w)" and rest: "ID ` set xs \<subseteq> ID ` set (db w)"
    by auto
  show ?case
  proof (cases "blobDeleted env c e")
    case False
    then have del: "fsDelete env (fs w) (EpisodeName env c e) =
        Inl (FsError (OpDelete (EpisodeName env c e)))"
      by (simp add: fsDelete_def blobDeleted_def)
    from False have f: "failure env c e = [Wrap (''failed to delete episode: '' @ ID e)
              (FsError (OpDelete (EpisodeName env c e)))]"
      by (simp add: failure_def)
    show ?thesis
      unfolding cleanLoop.simps del sum.case Cons.IH[OF rest]
      using False by (simp add: f cleanedFs_skip cleanedDb_skip)
  next
    case True
    then have del: "fsDelete env (fs w) (EpisodeName env c e) =
        Inr ((fs w)(EpisodeName env c e := None))"
      by (simp add: fsDelete_def blobDeleted_def)
    show ?thesis
    proof (cases "stateSet env e")
      case False
      then have upd: "dbUpdateEpisode env (db w) (ID e) markCleaned =
          Inl (DbError (OpUpdateEpisode (ID e)))"
        by (simp add: dbUpdateEpisode_def stateSet_def)
      from True False have f: "failure env c e =
          [Wrap (''failed to set state for cleaned episode: '' @ ID e)
              (DbError (OpUpdateEpisode (ID e)))]"
        by (simp add: failure_def)
      have rest': "ID ` set xs \<subseteq> ID ` set (db (w\<lparr> fs := (fs w)(EpisodeName env c e := None) \<rparr>))"
        using rest by simp
      show ?thesis
        unfolding cleanLoop.simps del sum.case upd Cons.IH[OF rest']
        using True False by (simp add: f cleanedFs_delete cleanedDb_skip)
    next
      case st: True
      let ?d = "map (\<lambda>x. if ID x = ID e then markCleaned x else x) (db w)"
      from st known have upd: "dbUpdateEpisode env (db w) (ID e) markCleaned = Inr ?d"
        by (simp add: dbUpdateEpisode_def stateSet_def)
      from True st have f: "failure env c e = []" by (simp add: failure_def)
      have "map ID ?d = map ID (db w)" by (simp add: comp_def if_distrib)
      then have "ID ` set ?d = ID ` set (db w)" by (metis set_map)
      with rest have rest': "ID ` set xs \<subseteq>
          ID ` set (db (w\<lparr> fs := (fs w)(EpisodeName env c e := None), db := ?d \<rparr>))"
        by simp
      show ?thesis
        unfolding cleanLoop.simps del sum.case upd Cons.IH[OF rest']
        using True st by (simp add: f cleanedFs_delete cleanedDb_mark)
    qed
  qed
qed


lemma cleanedDb_unchanged:
  assumes "e \<in> set d" "ID e \<notin> ID ` {x \<in> set xs. blobDeleted env c x \<and> stateSet env x}"
  shows "e \<in> set (cleanedDb env c xs d)"
proof -
  let ?g = "\<lambda>x. if ID x \<in> ID ` {e \<in> set xs. blobDeleted env c e \<and> stateSet env e}
              then markCleaned x else x"
  from assms(2) have "e = ?g e" by simp
  then have "e \<in> ?g ` set d" using assms(1) by (rule image_eqI)
  then show ?thesis by (simp add: cleanedDb_def)
qed

lemma cleanedDb_marked:
  assumes "e \<in> set d" "e \<in> set xs" "blobDeleted env c e" "stateSet env e"
  shows "markCleaned e \<in> set (cleanedDb env c xs d)"
proof -
  let ?g = "\<lambda>x. if ID x \<in> ID ` {e \<in> set xs. blobDeleted env c e \<and> stateSet env e}
              then markCleaned x else x"
  from assms(2-4) have "ID e \<in> ID ` {e \<in> set xs. blobDeleted env c e \<and> stateSet env e}" by blast
  then have "markCleaned e = ?g e" by simp
  then have "markCleaned e \<in> ?g ` set d" using assms(1) by (rule image_eqI)
  then show ?thesis by (simp add: cleanedDb_def)
qed

lemma sortSlice_sorts_facts:
  assumes wf: "wf_store (db w)" and srt: "sortSlice_sorts env (downloadedEpisodes w)"
  shows "length (sortSlice env After (downloadedEpisodes w)) = length (downloadedEpisodes w)"
    and "set (sortSlice env After (downloadedEpisodes w)) = set (downloadedEpisodes w)"
    and "distinct (map ID (sortSlice env After (downloadedEpisodes w)))"
proof -
  let ?dl = "downloadedEpisodes w" and ?s = "sortSlice env After (downloadedEpisodes w)"
  from srt have m: "mset ?s = mset ?dl" by (simp add: sortSlice_sorts_def)
  from m show "length ?s = length ?dl" by (rule mset_eq_length)
  from m show "set ?s = set ?dl" by (rule mset_eq_setD)
  from wf have "distinct (map ID ?dl)"
    by (simp add: wf_store_def downloadedEpisodes_def distinct_map_filter)
  moreover from m have "mset (map ID ?s) = mset (map ID ?dl)" by (metis mset_map)
  ultimately show "distinct (map ID ?s)" by (metis mset_eq_imp_distinct_iff)
qed

lemma cleanup_run:
  assumes wf: "wf_store (db w)" and srt: "sortSlice_sorts env (downloadedEpisodes w)"
    and n: "1 \<le> KeepLast (Clean c)" "KeepLast (Clean c) \<le> int (length (downloadedEpisodes w))"
    and walk: "\<not> dbFault env OpWalkEpisodes"
  shows "cleanup env c w =
     (ErrorOrNil (concat (map (failure env c) (excess env c w))),
      w\<lparr> fs := cleanedFs env c (excess env c w) (fs w),
         db := cleanedDb env c (excess env c w) (db w) \<rparr>)"
proof -
  have "set (excess env c w) \<subseteq> set (sortSlice env After (downloadedEpisodes w))"
    unfolding excess_def by (rule set_drop_subset)
  also have "\<dots> = set (downloadedEpisodes w)" by (rule sortSlice_sorts_facts(2)[OF wf srt])
  also have "\<dots> \<subseteq> set (db w)" by (simp add: downloadedEpisodes_def)
  finally have "ID ` set (excess env c w) \<subseteq> ID ` set (db w)" by (rule image_mono)
  from cleanLoop_spec[OF this, of env c "[]"] n walk show ?thesis
    by (simp add: cleanup_def dbWalkEpisodes_def Let_def excess_def downloadedEpisodes_def)
qed


lemma cleanup_noop:
  assumes "int (length (downloadedEpisodes w)) \<le> KeepLast (Clean c)"
    and srt: "sortSlice_sorts env (downloadedEpisodes w)"
  shows "snd (cleanup env c w) = w"
proof (cases "KeepLast (Clean c) < 1 \<or> dbFault env OpWalkEpisodes \<or>
    KeepLast (Clean c) > int (length (downloadedEpisodes w))")
  case True
  then show ?thesis
    by (auto simp: cleanup_def dbWalkEpisodes_def Let_def downloadedEpisodes_def)
next
  case False
  from srt have "length (sortSlice env After (downloadedEpisodes w)) = length (downloadedEpisodes w)"
    unfolding sortSlice_sorts_def by (metis mset_eq_length)
  with assms(1) have "drop (nat (KeepLast (Clean c))) (sortSlice env After (downloadedEpisodes w)) = []"
    by simp
  with False show ?thesis
    by (simp add: cleanup_def dbWalkEpisodes_def Let_def downloadedEpisodes_def)
qed

text \<open>
  Claim C7. For a store with unique IDs and a sort that sorts: with a keep-last count below 1 the
  cleaner changes nothing and returns no error; with at most that many \<open>Downloaded\<close> episodes
  it changes nothing; otherwise the \<open>Downloaded\<close> episodes split into the \<open>N\<close> newest by
  publish timestamp, which stay in the store as they are, and the excess. For every excess
  episode the blob is deleted unless the deletion fails; when the deletion and the store update
  succeed the episode becomes \<open>Cleaned\<close> with empty title and description; when one of them
  fails the episode stays as it is and an error is recorded, and the loop goes on with the
  remaining episodes: the returned error combines the failures of all excess episodes. No other
  episode and no other blob is touched.
\<close>

theorem cleanup_retention:
  assumes wf: "wf_store (db w)" and srt: "sortSlice_sorts env (downloadedEpisodes w)"
  shows
    "(KeepLast (Clean c) < 1 \<longrightarrow> cleanup env c w = (None, w)) \<and>
     (int (length (downloadedEpisodes w)) \<le> KeepLast (Clean c) \<longrightarrow> snd (cleanup env c w) = w) \<and>
     (1 \<le> KeepLast (Clean c) \<and> KeepLast (Clean c) < int (length (downloadedEpisodes w)) \<and>
      \<not> dbFault env OpWalkEpisodes \<longrightarrow>
        cleanup env c w =
          (ErrorOrNil (concat (map (failure env c) (excess env c w))),
           w\<lparr> fs := cleanedFs env c (excess env c w) (fs w),
              db := cleanedDb env c (excess env c w) (db w) \<rparr>) \<and>
        length (newest env c w) = nat (KeepLast (Clean c)) \<and>
        set (newest env c w) \<union> set (excess env c w) = set (downloadedEpisodes w) \<and>
        (\<forall>a \<in> set (newest env c w). \<forall>b \<in> set (excess env c w). PubDate b \<le> PubDate a) \<and>
        (\<forall>e \<in> set (newest env c w).
           e \<in> set (db (snd (cleanup env c w))) \<and> Status e = EpisodeDownloaded) \<and>
        (\<forall>e \<in> set (excess env c w).
           (blobDeleted env c e \<longrightarrow> fs (snd (cleanup env c w)) (EpisodeName env c e) = None) \<and>
           (blobDeleted env c e \<and> stateSet env e \<longrightarrow>
              markCleaned e \<in> set (db (snd (cleanup env c w))) \<and>
              Status (markCleaned e) = EpisodeCleaned \<and> Title (markCleaned e) = [] \<and>
              Description (markCleaned e) = [] \<and> ID (markCleaned e) = ID e) \<and>
           (\<not> (blobDeleted env c e \<and> stateSet env e) \<longrightarrow>
              e \<in> set (db (snd (cleanup env c w))) \<and> failure env c e \<noteq> [])) \<and>
        (\<forall>e \<in> set (db w). ID e \<notin> ID ` set (excess env c w) \<longrightarrow>
           e \<in> set (db (snd (cleanup env c w)))) \<and>
        (\<forall>name. name \<notin> EpisodeName env c ` set (excess env c w) \<longrightarrow>
           fs (snd (cleanup env c w)) name = fs w name))"
proof (intro conjI impI)
  assume "KeepLast (Clean c) < 1"
  then show "cleanup env c w = (None, w)" by (simp add: cleanup_def)
next
  assume "int (length (downloadedEpisodes w)) \<le> KeepLast (Clean c)"
  then show "snd (cleanup env c w) = w" using srt by (rule cleanup_noop)
next
  assume a: "1 \<le> KeepLast (Clean c) \<and> KeepLast (Clean c) < int (length (downloadedEpisodes w)) \<and>
      \<not> dbFault env OpWalkEpisodes"
  let ?n = "nat (KeepLast (Clean c))"
  let ?s = "sortSlice env After (downloadedEpisodes w)"
  let ?new = "newest env c w" and ?ex = "excess env c w"
  note facts = sortSlice_sorts_facts[OF wf srt]
  have split: "?s = ?new @ ?ex" by (simp add: newest_def excess_def)
  have run: "cleanup env c w =
          (ErrorOrNil (concat (map (failure env c) ?ex)),
           w\<lparr> fs := cleanedFs env c ?ex (fs w), db := cleanedDb env c ?ex (db w) \<rparr>)"
    using a by (intro cleanup_run[OF wf srt]) auto
  have dbw: "db (snd (cleanup env c w)) = cleanedDb env c ?ex (db w)"
    and fsw: "fs (snd (cleanup env c w)) = cleanedFs env c ?ex (fs w)"
    by (simp_all add: run)
  have len: "length ?new = ?n" using a facts(1) by (auto simp: newest_def)
  have sets: "set ?new \<union> set ?ex = set (downloadedEpisodes w)"
    using facts(2) unfolding split by simp
  have indb: "e \<in> set (db w) \<and> Status e = EpisodeDownloaded" if "e \<in> set ?new \<union> set ?ex" for e
    using that unfolding sets by (simp add: downloadedEpisodes_def)
  have dist: "distinct (map ID ?new @ map ID ?ex)"
    using facts(3) unfolding split by simp
  have ord: "\<forall>a \<in> set ?new. \<forall>b \<in> set ?ex. PubDate b \<le> PubDate a"
  proof -
    from srt have "sorted_wrt (\<lambda>a b. \<not> After b a) (?new @ ?ex)"
      unfolding sortSlice_sorts_def split[symmetric] by simp
    then have "\<forall>a \<in> set ?new. \<forall>b \<in> set ?ex. \<not> After b a"
      by (simp add: sorted_wrt_append)
    then show ?thesis by (simp add: After_def not_less)
  qed
  have new: "e \<in> set (db (snd (cleanup env c w))) \<and> Status e = EpisodeDownloaded"
    if e: "e \<in> set ?new" for e
  proof -
    from dist e have "ID e \<notin> ID ` set ?ex" by auto
    then have "ID e \<notin> ID ` {x \<in> set ?ex. blobDeleted env c x \<and> stateSet env x}" by blast
    with indb[of e] e show ?thesis unfolding dbw by (simp add: cleanedDb_unchanged)
  qed
  have other: "e \<in> set (db (snd (cleanup env c w)))"
    if "e \<in> set (db w)" "ID e \<notin> ID ` set ?ex" for e
  proof -
    from that(2) have "ID e \<notin> ID ` {x \<in> set ?ex. blobDeleted env c x \<and> stateSet env x}" by blast
    with that(1) show ?thesis unfolding dbw by (rule cleanedDb_unchanged)
  qed
  have exc: "(blobDeleted env c e \<longrightarrow> fs (snd (cleanup env c w)) (EpisodeName env c e) = None) \<and>
           (blobDeleted env c e \<and> stateSet env e \<longrightarrow>
              markCleaned e \<in> set (db (snd (cleanup env c w))) \<and>
              Status (markCleaned e) = EpisodeCleaned \<and> Title (markCleaned e) = [] \<and>
              Description (markCleaned e) = [] \<and> ID (markCleaned e) = ID e) \<and>
           (\<not> (blobDeleted env c e \<and> stateSet env e) \<longrightarrow>
              e \<in> set (db (snd (cleanup env c w))) \<and> failure env c e \<noteq> [])"
    if e: "e \<in> set ?ex" for e
  proof (intro conjI impI)
    assume "blobDeleted env c e"
    with e show "fs (snd (cleanup env c w)) (EpisodeName env c e) = None"
      unfolding fsw by (auto simp: cleanedFs_def)
  next
    assume b: "blobDeleted env c e \<and> stateSet env e"
    with indb[of e] e show "markCleaned e \<in> set (db (snd (cleanup env c w)))"
      unfolding dbw by (simp add: cleanedDb_marked)
  next
    assume nb: "\<not> (blobDeleted env c e \<and> stateSet env e)"
    have "ID e \<notin> ID ` {x \<in> set ?ex. blobDeleted env c x \<and> stateSet env x}"
    proof
      assume "ID e \<in> ID ` {x \<in> set ?ex. blobDeleted env c x \<and> stateSet env x}"
      then obtain x where x: "x \<in> set ?ex" "blobDeleted env c x \<and> stateSet env x" "ID x = ID e"
        by auto
      from dist have "distinct (map ID ?ex)" by simp
      with x(1,3) e have "x = e" by (metis distinct_map inj_onD)
      with x(2) nb show False by simp
    qed
    with indb[of e] e show "e \<in> set (db (snd (cleanup env c w)))"
      unfolding dbw by (simp add: cleanedDb_unchanged)
    from nb show "failure env c e \<noteq> []" by (auto simp: failure_def)
  qed (simp_all add: markCleaned_def)
  have blobs: "fs (snd (cleanup env c w)) name = fs w name"
    if "name \<notin> EpisodeName env c ` set ?ex" for name
    using that unfolding fsw by (auto simp: cleanedFs_def)
  show "cleanup env c w =
          (ErrorOrNil (concat (map (failure env c) ?ex)),
           w\<lparr> fs := cleanedFs env c ?ex (fs w), db := cleanedDb env c ?ex (db w) \<rparr>)"
    by (rule run)
  show "length ?new = ?n" by (rule len)
  show "set ?new \<union> set ?ex = set (downloadedEpisodes w)" by (rule sets)
  show "\<forall>a \<in> set ?new. \<forall>b \<in> set ?ex. PubDate b \<le> PubDate a" by (rule ord)
  show "\<forall>e \<in> set ?new. e \<in> set (db (snd (cleanup env c w))) \<and> Status e = EpisodeDownloaded"
    using new by blast
  show "\<forall>e \<in> set ?ex.
           (blobDeleted env c e \<longrightarrow> fs (snd (cleanup env c w)) (EpisodeName env c e) = None) \<and>
           (blobDeleted env c e \<and> stateSet env e \<longrightarrow>
              markCleaned e \<in> set (db (snd (cleanup env c w))) \<and>
              Status (markCleaned e) = EpisodeCleaned \<and> Title (markCleaned e) = [] \<and>
              Description (markCleaned e) = [] \<and> ID (markCleaned e) = ID e) \<and>
           (\<not> (blobDeleted env c e \<and> stateSet env e) \<longrightarrow>
              e \<in> set (db (snd (cleanup env c w))) \<and> failure env c e \<noteq> [])"
    using exc by blast
  show "\<forall>e \<in> set (db w). ID e \<notin> ID ` set ?ex \<longrightarrow> e \<in> set (db (snd (cleanup env c w)))"
    using other by blast
  show "\<forall>name. name \<notin> EpisodeName env c ` set ?ex \<longrightarrow>
           fs (snd (cleanup env c w)) name = fs w name"
    using blobs by blast
qed

lemma exClean_sorted:
  "sortSlice exEnvClean After (downloadedEpisodes exWorldClean) =
     [exDownloaded ''d5'' 500, exDownloaded ''d4'' 400, exDownloaded ''d3'' 300,
      exDownloaded ''d2'' 200, exDownloaded ''d1'' 100]"
  by (simp add: exEnvClean_def exEnv_def exSortSlice_def downloadedEpisodes_def exWorldClean_def
      exDownloaded_def exEpisode_def After_def)

lemma exClean_hyps:
  "wf_store (db exWorldClean)" "sortSlice_sorts exEnvClean (downloadedEpisodes exWorldClean)"
proof -
  show "wf_store (db exWorldClean)"
    by (simp add: wf_store_def exWorldClean_def exDownloaded_def exEpisode_def)
  have "downloadedEpisodes exWorldClean =
     [exDownloaded ''d1'' 100, exDownloaded ''d2'' 200, exDownloaded ''d3'' 300,
      exDownloaded ''d4'' 400, exDownloaded ''d5'' 500]"
    by (simp add: downloadedEpisodes_def exWorldClean_def exDownloaded_def exEpisode_def)
  moreover have "sorted_wrt (\<lambda>a b. \<not> After b a)
     [exDownloaded ''d5'' 500, exDownloaded ''d4'' 400, exDownloaded ''d3'' 300,
      exDownloaded ''d2'' 200, exDownloaded ''d1'' 100]"
    by (simp add: After_def exDownloaded_def exEpisode_def)
  ultimately show "sortSlice_sorts exEnvClean (downloadedEpisodes exWorldClean)"
    unfolding sortSlice_sorts_def exClean_sorted by (simp add: add_mset_commute)
qed

theorem cleanup_retention_witness:
  "fst (cleanup exEnvClean exFeedKeep2 exWorldClean) =
     Some (MultiError [Wrap ''failed to delete episode: d2'' (FsError (OpDelete ''d2.mp4''))]) \<and>
   map Status (db (snd (cleanup exEnvClean exFeedKeep2 exWorldClean))) =
     [EpisodeCleaned, EpisodeDownloaded, EpisodeCleaned, EpisodeDownloaded, EpisodeDownloaded,
      EpisodeNew] \<and>
   map Title (db (snd (cleanup exEnvClean exFeedKeep2 exWorldClean))) =
     [[], ''title'', [], ''title'', ''title'', ''title''] \<and>
   fs (snd (cleanup exEnvClean exFeedKeep2 exWorldClean)) ''d1.mp4'' = None \<and>
   fs (snd (cleanup exEnvClean exFeedKeep2 exWorldClean)) ''d2.mp4'' = Some 20 \<and>
   fs (snd (cleanup exEnvClean exFeedKeep2 exWorldClean)) ''d5.mp4'' = Some 50"
proof -
  have ex: "excess exEnvClean exFeedKeep2 exWorldClean =
     [exDownloaded ''d3'' 300, exDownloaded ''d2'' 200, exDownloaded ''d1'' 100]"
    unfolding excess_def exClean_sorted by (simp add: exFeedKeep2_def exFeed_def)
  have n: "length (downloadedEpisodes exWorldClean) = 5"
    by (simp add: downloadedEpisodes_def exWorldClean_def exDownloaded_def exEpisode_def)
  from cleanup_retention [OF exClean_hyps, of exFeedKeep2]
  have "cleanup exEnvClean exFeedKeep2 exWorldClean =
          (ErrorOrNil (concat (map (failure exEnvClean exFeedKeep2)
               (excess exEnvClean exFeedKeep2 exWorldClean))),
           exWorldClean\<lparr> fs := cleanedFs exEnvClean exFeedKeep2
                 (excess exEnvClean exFeedKeep2 exWorldClean) (fs exWorldClean),
              db := cleanedDb exEnvClean exFeedKeep2
                 (excess exEnvClean exFeedKeep2 exWorldClean) (db exWorldClean) \<rparr>)"
    by (simp add: n exFeedKeep2_def exFeed_def exEnvClean_def exEnv_def)
  then show ?thesis
    unfolding ex
    by (simp add: ErrorOrNil_def failure_def blobDeleted_def stateSet_def cleanedFs_def
        cleanedDb_def markCleaned_def exEnvClean_def exEnv_def exWorldClean_def
        exDownloaded_def exEpisode_def)
qed

end
